theory Spec2Isabelle
  imports Complex_Main "HOL-Library.Sublist"
begin

section \<open>Python strings\<close>

text \<open>
  A Python \<open>str\<close> is modelled as a \<open>string\<close>, each \<open>char\<close> standing for one code
  point below 256. \<open>isspace\<close> is \<open>str.isspace\<close> on those code points (the characters
  that \<open>str.strip()\<close> and \<open>str.split()\<close> treat as whitespace), \<open>lower_char\<close> is
  \<open>str.lower\<close> on them.
\<close>

definition isspace :: "char \<Rightarrow> bool" where
  "isspace c = (of_char c \<in> {9, 10, 11, 12, 13, 28, 29, 30, 31, 32, 133, 160 :: nat})"

definition strip :: "string \<Rightarrow> string" where
  "strip s = rev (dropWhile isspace (rev (dropWhile isspace s)))"

definition lower_char :: "char \<Rightarrow> char" where
  "lower_char c =
     (let n = (of_char c :: nat)
      in if (65 \<le> n \<and> n \<le> 90) \<or> (192 \<le> n \<and> n \<le> 222 \<and> n \<noteq> 215)
         then char_of (n + 32) else c)"

definition lower :: "string \<Rightarrow> string" where
  "lower s = map lower_char s"

text \<open>\<open>split_acc\<close> is \<open>str.split()\<close> without arguments: the maximal runs of
  non-whitespace characters, in order; \<open>w\<close> is the run being read.\<close>

fun split_acc :: "string \<Rightarrow> string \<Rightarrow> string list" where
  "split_acc w [] = (if w = [] then [] else [w])"
| "split_acc w (c # cs) =
     (if isspace c then (if w = [] then split_acc [] cs else w # split_acc [] cs)
      else split_acc (w @ [c]) cs)"

definition split :: "string \<Rightarrow> string list" where
  "split s = split_acc [] s"

text \<open>\<open>contains t d\<close> is Python's \<open>t in d\<close> on strings: \<open>t\<close> occurs in \<open>d\<close> as a
  contiguous substring.\<close>

fun contains :: "string \<Rightarrow> string \<Rightarrow> bool" where
  "contains t [] = (t = [])"
| "contains t (c # cs) = (prefix t (c # cs) \<or> contains t cs)"

text \<open>Decimal rendering of a natural number, as \<open>str(n)\<close> and \<open>f"{n}"\<close> give it.\<close>

definition digit_char :: "nat \<Rightarrow> char" where
  "digit_char d = ''0123456789'' ! d"

fun str_nat :: "nat \<Rightarrow> string" where
  "str_nat n = (if n < 10 then [digit_char n] else str_nat (n div 10) @ [digit_char (n mod 10)])"

declare str_nat.simps [simp del]

section \<open>Float arithmetic\<close>

text \<open>
  A finite Python float is the real number it represents. The results of the float
  operations are rounded, so the operations the source applies to floats are parameters
  of the model: \<open>fsub a b\<close> is what \<open>a - b\<close> evaluates to, \<open>ffloordiv a b\<close> what
  \<open>a // b\<close> and \<open>fmod a b\<close> what \<open>a % b\<close> evaluate to. Every general theorem holds
  for all such operations. Comparisons are exact in Python, also between a float and an
  int. \<open>exact_ops\<close> are the operations without rounding; they agree with the float
  operations wherever those are exact, as on the example transcripts below, whose times
  and differences are multiples of 1/2 below 128.
\<close>

record float_ops =
  fsub :: "real \<Rightarrow> real \<Rightarrow> real"
  ffloordiv :: "real \<Rightarrow> real \<Rightarrow> real"
  fmod :: "real \<Rightarrow> real \<Rightarrow> real"

definition exact_ops :: float_ops where
  "exact_ops = \<lparr>fsub = (\<lambda>a b. a - b),
                 ffloordiv = (\<lambda>a b. real_of_int \<lfloor>a / b\<rfloor>),
                 fmod = (\<lambda>a b. a - b * real_of_int \<lfloor>a / b\<rfloor>)\<rparr>"

section \<open>Temporal Chunker: \<open>AudioProcessor.chunk_transcript_by_time\<close>\<close>

text \<open>
  Times are finite Python floats. A transcript is the list under its \<open>'segments'\<close> key
  (a missing key is the empty list); a segment's \<open>'words'\<close> default to the empty list.
\<close>

type_synonym word_ts = "string \<times> real \<times> real"

record segment =
  seg_start :: real
  seg_end :: real
  seg_text :: string
  seg_words :: "word_ts list"

record chunk =
  chunk_text :: string
  start_time :: "real option"
  end_time :: "real option"
  chunk_words :: "word_ts list"
  speaker :: string

text \<open>\<open>speakers.get(i, 'Unknown') if speakers else 'Unknown'\<close>: \<open>None\<close> and the empty
  dictionary both give \<open>'Unknown'\<close>, which the lookup with default gives as well.\<close>

definition speaker_for :: "(nat \<rightharpoonup> string) option \<Rightarrow> nat \<Rightarrow> string" where
  "speaker_for speakers i =
     (case speakers of
        None \<Rightarrow> ''Unknown''
      | Some m \<Rightarrow> (case m i of None \<Rightarrow> ''Unknown'' | Some s \<Rightarrow> s))"

definition empty_chunk :: chunk where
  "empty_chunk = \<lparr>chunk_text = [], start_time = None, end_time = None,
                  chunk_words = [], speaker = ''Unknown''\<rparr>"

definition fresh_chunk :: "segment \<Rightarrow> string \<Rightarrow> chunk" where
  "fresh_chunk segm spk =
     \<lparr>chunk_text = seg_text segm, start_time = Some (seg_start segm),
      end_time = Some (seg_end segm), chunk_words = seg_words segm, speaker = spk\<rparr>"

text \<open>
  \<open>absorbed\<close> is \<open>current_chunk\<close> after lines 90 to 96 of the loop body: the start time
  and the speaker are set when the start time is \<open>None\<close>, then the end time is
  overwritten and the segment's text (after a blank) and words are appended.
\<close>

definition absorbed :: "chunk \<Rightarrow> segment \<Rightarrow> string \<Rightarrow> chunk" where
  "absorbed current_chunk segm spk =
     (let opened = (if start_time current_chunk = None
                    then current_chunk\<lparr>start_time := Some (seg_start segm), speaker := spk\<rparr>
                    else current_chunk)
      in opened\<lparr>end_time := Some (seg_end segm),
                chunk_text := chunk_text opened @ '' '' @ seg_text segm,
                chunk_words := chunk_words opened @ seg_words segm\<rparr>)"

text \<open>The value of \<open>current_chunk['end_time'] - current_chunk['start_time']\<close> for a
  chunk whose two times are set.\<close>

definition chunk_span :: "float_ops \<Rightarrow> chunk \<Rightarrow> real option" where
  "chunk_span ops c =
     (case (start_time c, end_time c) of
        (Some s, Some e) \<Rightarrow> Some (fsub ops e s)
      | _ \<Rightarrow> None)"

text \<open>
  One iteration of the loop over \<open>enumerate(segments)\<close>, on the pair of the list
  \<open>chunks\<close> and \<open>current_chunk\<close>. The two closing tests read the chunk after the
  segment was absorbed. After \<open>absorbed\<close> both times are set, so the subtraction of
  line 109 never meets \<open>None\<close>; the model gives that unreachable case the value of the
  \<open>else\<close> branch.
\<close>

definition chunk_step :: "float_ops \<Rightarrow> (nat \<rightharpoonup> string) option \<Rightarrow> int \<Rightarrow>
    chunk list \<times> chunk \<Rightarrow> nat \<times> segment \<Rightarrow> chunk list \<times> chunk" where
  "chunk_step ops speakers chunk_duration st isegm =
     (let chunks = fst st; i = fst isegm; segm = snd isegm;
          spk = speaker_for speakers i;
          current_chunk = absorbed (snd st) segm spk
      in if spk \<noteq> speaker current_chunk \<and> strip (chunk_text current_chunk) \<noteq> []
         then (chunks @ [current_chunk], fresh_chunk segm spk)
         else (case chunk_span ops current_chunk of
                 Some d \<Rightarrow>
                   if real_of_int chunk_duration \<le> d
                   then (chunks @ [current_chunk], fresh_chunk segm spk)
                   else (chunks, current_chunk)
               | None \<Rightarrow> (chunks, current_chunk)))"

definition chunk_loop :: "float_ops \<Rightarrow> (nat \<rightharpoonup> string) option \<Rightarrow> int \<Rightarrow>
    segment list \<Rightarrow> chunk list \<times> chunk" where
  "chunk_loop ops speakers chunk_duration segments =
     foldl (chunk_step ops speakers chunk_duration) ([], empty_chunk) (enumerate 0 segments)"

definition chunk_transcript_by_time :: "float_ops \<Rightarrow> segment list \<Rightarrow>
    (nat \<rightharpoonup> string) option \<Rightarrow> int \<Rightarrow> chunk list" where
  "chunk_transcript_by_time ops segments speakers chunk_duration =
     (let st = chunk_loop ops speakers chunk_duration segments
      in if strip (chunk_text (snd st)) \<noteq> [] then fst st @ [snd st] else fst st)"

text \<open>
  \<open>closes_on_duration\<close> says that the iteration for the indexed segment \<open>isegm\<close>,
  entered with the accumulator \<open>acc\<close>, fails the speaker test of line 99 and passes the
  duration test of line 109.
\<close>

definition closes_on_duration :: "float_ops \<Rightarrow> (nat \<rightharpoonup> string) option \<Rightarrow> int \<Rightarrow> chunk \<Rightarrow>
    nat \<times> segment \<Rightarrow> bool" where
  "closes_on_duration ops speakers chunk_duration acc isegm =
     (let spk = speaker_for speakers (fst isegm);
          current_chunk = absorbed acc (snd isegm) spk
      in \<not> (spk \<noteq> speaker current_chunk \<and> strip (chunk_text current_chunk) \<noteq> []) \<and>
         (case chunk_span ops current_chunk of
            Some d \<Rightarrow> real_of_int chunk_duration \<le> d
          | None \<Rightarrow> False))"

text \<open>Example transcripts: the spec's example with a pause of 3s before the third
  segment, a transcript with a long pause, and one without pauses.\<close>

definition pause_example :: "segment list" where
  "pause_example =
     [\<lparr>seg_start = 0, seg_end = 10, seg_text = ''hello'', seg_words = []\<rparr>,
      \<lparr>seg_start = 10.5, seg_end = 15, seg_text = ''world'', seg_words = []\<rparr>,
      \<lparr>seg_start = 18, seg_end = 25, seg_text = ''ok'', seg_words = []\<rparr>]"

definition pause_example_speakers :: "nat \<rightharpoonup> string" where
  "pause_example_speakers = [0 \<mapsto> ''Speaker_0'', 1 \<mapsto> ''Speaker_0'', 2 \<mapsto> ''Speaker_1'']"



section \<open>Speaker Segmenter: \<open>AudioProcessor.identify_speakers\<close>\<close>

text \<open>Exceptions of the source are values of \<open>py_error\<close>; a function that can raise
  returns \<open>py_error + 'a\<close>, and each \<open>try\<close>/\<open>except\<close> is a case distinction on it.\<close>

datatype py_error = KeyError | IndexError | TypeError | ValueError | BackendError string

definition speaker_label :: "nat \<Rightarrow> string" where
  "speaker_label speaker_count = ''Speaker_'' @ str_nat speaker_count"

definition get_item :: "'a list \<Rightarrow> nat \<Rightarrow> py_error + 'a" where
  "get_item xs i = (if i < length xs then Inr (xs ! i) else Inl IndexError)"

text \<open>
  One iteration of the loop of \<open>identify_speakers\<close> on the pair of the dictionary
  \<open>speakers\<close> and \<open>speaker_count\<close>. The pause is the float difference of line 146.
  Reading \<open>segments[i-1]\<close> out of range or \<open>speakers[i-1]\<close> at a missing key raises.
\<close>

definition speaker_step :: "float_ops \<Rightarrow> segment list \<Rightarrow> (nat \<rightharpoonup> string) \<times> nat \<Rightarrow>
    nat \<times> segment \<Rightarrow> py_error + ((nat \<rightharpoonup> string) \<times> nat)" where
  "speaker_step ops segments st isegm =
     (let speakers = fst st; speaker_count = snd st; i = fst isegm; segm = snd isegm
      in if i = 0 then Inr (speakers(i \<mapsto> speaker_label speaker_count), speaker_count)
         else (case get_item segments (i - 1) of
                 Inl e \<Rightarrow> Inl e
               | Inr prev \<Rightarrow>
                   (let prev_end = seg_end prev; curr_start = seg_start segm;
                        pause = fsub ops curr_start prev_end
                    in if pause > 2
                       then Inr (speakers(i \<mapsto> speaker_label (speaker_count + 1)),
                                 speaker_count + 1)
                       else (case speakers (i - 1) of
                               None \<Rightarrow> Inl KeyError
                             | Some l \<Rightarrow> Inr (speakers(i \<mapsto> l), speaker_count)))))"

fun speakers_loop :: "float_ops \<Rightarrow> segment list \<Rightarrow> (nat \<times> segment) list \<Rightarrow>
    (nat \<rightharpoonup> string) \<times> nat \<Rightarrow> py_error + ((nat \<rightharpoonup> string) \<times> nat)" where
  "speakers_loop ops segments [] st = Inr st"
| "speakers_loop ops segments (isegm # rest) st =
     (case speaker_step ops segments st isegm of
        Inl e \<Rightarrow> Inl e
      | Inr st' \<Rightarrow> speakers_loop ops segments rest st')"

text \<open>The unused \<open>audio_path\<close> is left out. An exception gives the empty dictionary.\<close>

definition identify_speakers :: "float_ops \<Rightarrow> segment list \<Rightarrow> (nat \<rightharpoonup> string)" where
  "identify_speakers ops segments =
     (if segments = [] then Map.empty
      else (case speakers_loop ops segments (enumerate 0 segments) (Map.empty, 0) of
              Inl e \<Rightarrow> Map.empty
            | Inr st \<Rightarrow> fst st))"

text \<open>
  The spec's words for the Speaker Segmenter, to compare the code with: the running
  counter at segment \<open>i\<close> is 0 at segment 0 and is incremented at each later segment
  whose pause, the float difference \<open>segment[i].start_time - segment[i-1].end_time\<close>,
  is above 2.0.
\<close>

definition pause_before :: "float_ops \<Rightarrow> segment list \<Rightarrow> nat \<Rightarrow> real" where
  "pause_before ops segments i =
     fsub ops (seg_start (segments ! i)) (seg_end (segments ! (i - 1)))"

fun speaker_index :: "float_ops \<Rightarrow> segment list \<Rightarrow> nat \<Rightarrow> nat" where
  "speaker_index ops segments 0 = 0"
| "speaker_index ops segments (Suc i) =
     (if pause_before ops segments (Suc i) > 2 then Suc (speaker_index ops segments i)
      else speaker_index ops segments i)"

text \<open>The dictionary after the first \<open>k\<close> iterations, by the spec's counter.\<close>

definition labelled_upto :: "float_ops \<Rightarrow> segment list \<Rightarrow> nat \<Rightarrow> (nat \<rightharpoonup> string)" where
  "labelled_upto ops segs k =
     (\<lambda>i. if i < k then Some (speaker_label (speaker_index ops segs i)) else None)"

section \<open>Timestamp formatting: \<open>RAGEngine._format_timestamp\<close> and \<open>utils.format_time\<close>\<close>

text \<open>
  The argument is a Python int (\<open>IntNum\<close>, on which \<open>//\<close> and \<open>%\<close> are exact), a
  finite float (\<open>FloatNum\<close>, on which they are the float operations), a float that is
  an infinity or a NaN (\<open>NonFinite\<close>: \<open>//\<close> gives a NaN, on which \<open>int()\<close> raises
  \<open>ValueError\<close>), or a value on which \<open>//\<close> raises \<open>TypeError\<close> (a string,
  \<open>None\<close>). \<open>py_int\<close> is \<open>int()\<close> on a finite float: truncation towards zero.
  \<open>format_02d\<close> is the format \<open>:02d\<close>: at least two characters, padded with zeros
  after the sign.
\<close>

datatype seconds_arg = IntNum int | FloatNum real | NonFinite | NonNumeric

definition py_int :: "real \<Rightarrow> int" where
  "py_int r = (if 0 \<le> r then \<lfloor>r\<rfloor> else \<lceil>r\<rceil>)"

definition zero_pad :: "nat \<Rightarrow> string \<Rightarrow> string" where
  "zero_pad w s = replicate (w - length s) (CHR ''0'') @ s"

definition format_02d :: "int \<Rightarrow> string" where
  "format_02d i =
     (if i < 0 then ''-'' @ zero_pad 1 (str_nat (nat (- i))) else zero_pad 2 (str_nat (nat i)))"

definition format_timestamp_body :: "float_ops \<Rightarrow> seconds_arg \<Rightarrow> py_error + string" where
  "format_timestamp_body ops seconds =
     (case seconds of
        NonNumeric \<Rightarrow> Inl TypeError
      | NonFinite \<Rightarrow> Inl ValueError
      | IntNum i \<Rightarrow>
          (let minutes = i div 60; secs = i mod 60
           in Inr (format_02d minutes @ '':'' @ format_02d secs))
      | FloatNum x \<Rightarrow>
          (let minutes = py_int (ffloordiv ops x 60); secs = py_int (fmod ops x 60)
           in Inr (format_02d minutes @ '':'' @ format_02d secs)))"

definition format_timestamp :: "float_ops \<Rightarrow> seconds_arg \<Rightarrow> string" where
  "format_timestamp ops seconds =
     (case format_timestamp_body ops seconds of Inl e \<Rightarrow> ''00:00'' | Inr s \<Rightarrow> s)"

text \<open>\<open>utils.format_time\<close> has the same body as \<open>RAGEngine._format_timestamp\<close>.\<close>

definition format_time :: "float_ops \<Rightarrow> seconds_arg \<Rightarrow> string" where
  "format_time ops seconds =
     (case format_timestamp_body ops seconds of Inl e \<Rightarrow> ''00:00'' | Inr s \<Rightarrow> s)"

section \<open>Content Index: the search strategies of \<open>TextIndexer\<close>\<close>

text \<open>
  The metadata of a chunk is the dictionary stored by \<open>add_transcript_chunks\<close>; a field
  is \<open>None\<close> when its key is missing. A search result holds the three parallel lists
  of the single query of the batch (the source's \<open>results['documents'][0]\<close> and so on).
  The embedding backend \<open>collection.query\<close> is a parameter: given the query text and the
  number of results asked for, it raises or answers with a search result.
\<close>

record metadata =
  meta_episode_id :: "string option"
  meta_episode_title :: "string option"
  meta_start_time :: "seconds_arg option"
  meta_end_time :: "seconds_arg option"
  meta_speaker :: "string option"
  meta_chunk_index :: "nat option"

record search_result =
  documents :: "string list"
  metadatas :: "metadata option list"
  distances :: "real list"

type_synonym backend = "string \<Rightarrow> int \<Rightarrow> py_error + search_result"

definition empty_result :: search_result where
  "empty_result = \<lparr>documents = [], metadatas = [], distances = []\<rparr>"

text \<open>Appending document \<open>doc\<close> of rank \<open>i\<close> with \<open>metadatas[i]\<close> and \<open>distances[i]\<close>
  of \<open>results\<close> to the three lists being built; an index out of range raises.\<close>

definition append_hit :: "search_result \<Rightarrow> nat \<Rightarrow> string \<Rightarrow> search_result \<Rightarrow>
    py_error + search_result" where
  "append_hit results i doc acc =
     (case get_item (metadatas results) i of
        Inl e \<Rightarrow> Inl e
      | Inr m \<Rightarrow>
          (case get_item (distances results) i of
             Inl e \<Rightarrow> Inl e
           | Inr d \<Rightarrow> Inr \<lparr>documents = documents acc @ [doc],
                           metadatas = metadatas acc @ [m],
                           distances = distances acc @ [d]\<rparr>))"

definition semantic_search :: "backend \<Rightarrow> string \<Rightarrow> int \<Rightarrow> search_result" where
  "semantic_search collection query n_results =
     (case collection query n_results of
        Inl e \<Rightarrow> empty_result
      | Inr results \<Rightarrow> results)"

text \<open>\<open>any(term in doc_lower for term in query_terms)\<close>\<close>

definition any_term_in :: "string list \<Rightarrow> string \<Rightarrow> bool" where
  "any_term_in query_terms doc = list_ex (\<lambda>t. contains t (lower doc)) query_terms"

text \<open>The filtering loop of \<open>_keyword_search\<close>; the \<open>break\<close> test is made at the end of
  every iteration.\<close>

fun keyword_loop :: "string list \<Rightarrow> int \<Rightarrow> search_result \<Rightarrow> (nat \<times> string) list \<Rightarrow>
    search_result \<Rightarrow> py_error + search_result" where
  "keyword_loop query_terms n_results results [] filtered = Inr filtered"
| "keyword_loop query_terms n_results results ((i, doc) # rest) filtered =
     (case (if any_term_in query_terms doc then append_hit results i doc filtered
            else Inr filtered) of
        Inl e \<Rightarrow> Inl e
      | Inr filtered' \<Rightarrow>
          if int (length (documents filtered')) \<ge> n_results then Inr filtered'
          else keyword_loop query_terms n_results results rest filtered')"

definition keyword_search :: "backend \<Rightarrow> string \<Rightarrow> int \<Rightarrow> search_result" where
  "keyword_search collection query n_results =
     (case collection query (n_results * 2) of
        Inl e \<Rightarrow> empty_result
      | Inr results \<Rightarrow>
          (case keyword_loop (split (lower query)) n_results results
                  (enumerate 0 (documents results)) empty_result of
             Inl e \<Rightarrow> empty_result
           | Inr filtered \<Rightarrow> filtered))"

text \<open>The two loops of \<open>_hybrid_search\<close> and the slice \<open>xs[:n]\<close>, which for a negative
  \<open>n\<close> drops the last \<open>-n\<close> elements.\<close>

fun semantic_merge_loop :: "search_result \<Rightarrow> (nat \<times> string) list \<Rightarrow> search_result \<Rightarrow>
    py_error + search_result" where
  "semantic_merge_loop semantic_results [] combined = Inr combined"
| "semantic_merge_loop semantic_results ((i, doc) # rest) combined =
     (if doc \<notin> set (documents combined)
      then (case append_hit semantic_results i doc combined of
              Inl e \<Rightarrow> Inl e
            | Inr combined' \<Rightarrow> semantic_merge_loop semantic_results rest combined')
      else semantic_merge_loop semantic_results rest combined)"

fun keyword_merge_loop :: "int \<Rightarrow> search_result \<Rightarrow> (nat \<times> string) list \<Rightarrow> search_result \<Rightarrow>
    py_error + search_result" where
  "keyword_merge_loop n_results keyword_results [] combined = Inr combined"
| "keyword_merge_loop n_results keyword_results ((i, doc) # rest) combined =
     (if doc \<notin> set (documents combined) \<and> int (length (documents combined)) < n_results
      then (case append_hit keyword_results i doc combined of
              Inl e \<Rightarrow> Inl e
            | Inr combined' \<Rightarrow> keyword_merge_loop n_results keyword_results rest combined')
      else keyword_merge_loop n_results keyword_results rest combined)"

definition py_prefix :: "int \<Rightarrow> 'a list \<Rightarrow> 'a list" where
  "py_prefix n xs = (if 0 \<le> n then take (nat n) xs else take (length xs - nat (- n)) xs)"

definition hybrid_search :: "backend \<Rightarrow> string \<Rightarrow> int \<Rightarrow> search_result" where
  "hybrid_search collection query n_results =
     (let semantic_results = semantic_search collection query n_results;
          keyword_results = keyword_search collection query n_results
      in case semantic_merge_loop semantic_results
                (enumerate 0 (documents semantic_results)) empty_result of
           Inl e \<Rightarrow> empty_result
         | Inr combined \<Rightarrow>
             (case keyword_merge_loop n_results keyword_results
                     (enumerate 0 (documents keyword_results)) combined of
                Inl e \<Rightarrow> empty_result
              | Inr combined' \<Rightarrow>
                  \<lparr>documents = py_prefix n_results (documents combined'),
                   metadatas = py_prefix n_results (metadatas combined'),
                   distances = py_prefix n_results (distances combined')\<rparr>))"

text \<open>The three strategies catch their own exceptions, so the outer \<open>except\<close> of
  \<open>search_similar_content\<close> has nothing left to catch.\<close>

definition search_similar_content :: "backend \<Rightarrow> string \<Rightarrow> int \<Rightarrow> string \<Rightarrow> search_result" where
  "search_similar_content collection query n_results search_strategy =
     (if search_strategy = ''semantic'' then semantic_search collection query n_results
      else if search_strategy = ''keyword'' then keyword_search collection query n_results
      else if search_strategy = ''hybrid'' then hybrid_search collection query n_results
      else semantic_search collection query n_results)"

text \<open>
  Notions used to state the properties: a result is well formed when its three lists have
  one length; \<open>dedup_first\<close> keeps the first occurrence of every element, in order; an
  answer of the backend is void when it is an exception or the empty result.
\<close>

definition well_formed :: "search_result \<Rightarrow> bool" where
  "well_formed r \<longleftrightarrow>
     length (metadatas r) = length (documents r) \<and> length (distances r) = length (documents r)"

definition dedup_first :: "'a list \<Rightarrow> 'a list" where
  "dedup_first xs = rev (remdups (rev xs))"

fun dedup_into :: "'a list \<Rightarrow> 'a list \<Rightarrow> 'a list" where
  "dedup_into acc [] = acc"
| "dedup_into acc (x # xs) = dedup_into (if x \<in> set acc then acc else acc @ [x]) xs"

definition void_answer :: "py_error + search_result \<Rightarrow> bool" where
  "void_answer a = (case a of Inl e \<Rightarrow> True | Inr r \<Rightarrow> r = empty_result)"

text \<open>
  The hits of a result are its triples of document, metadata and distance, in rank order.
  \<open>keep_first seen hs\<close> keeps, in order, every hit of \<open>hs\<close> whose document text is
  neither in \<open>seen\<close> nor the text of an earlier hit of \<open>hs\<close>. \<open>is_term s t\<close> says
  that \<open>t\<close> is one of the terms \<open>s\<close> splits into at whitespace: a non-empty stretch
  of \<open>s\<close> without whitespace that is bounded on each side by whitespace or by the end
  of \<open>s\<close>.
\<close>

type_synonym hit = "string \<times> metadata option \<times> real"

definition hits :: "search_result \<Rightarrow> hit list" where
  "hits r = zip (documents r) (zip (metadatas r) (distances r))"

fun keep_first :: "string list \<Rightarrow> hit list \<Rightarrow> hit list" where
  "keep_first seen [] = []"
| "keep_first seen (h # hs) =
     (if fst h \<in> set seen then keep_first seen hs else h # keep_first (seen @ [fst h]) hs)"



text \<open>The hit that a loop reads for the indexed document \<open>(i, doc)\<close> of \<open>r\<close>.\<close>

definition hit_at :: "search_result \<Rightarrow> nat \<times> string \<Rightarrow> hit" where
  "hit_at r idoc = (snd idoc, metadatas r ! fst idoc, distances r ! fst idoc)"

text \<open>
  Example backends: \<open>ranked_backend r\<close> answers every query with the first \<open>k\<close> hits of
  the ranking \<open>r\<close>; \<open>strict_backend r\<close> does the same but raises when asked for more
  results than \<open>r\<close> holds; \<open>fixed_backend r\<close> answers every query with \<open>r\<close>,
  whatever number of results is asked for; \<open>down_backend\<close> always raises.
  \<open>startup_pool\<close> and \<open>tagged_pool\<close> are rankings of five documents of which one
  contains the word startup, the second with the metadata of five chunks;
  \<open>repeat_pool\<close> ranks two chunks of the same text first.
\<close>

definition top_hits :: "int \<Rightarrow> search_result \<Rightarrow> search_result" where
  "top_hits k r = \<lparr>documents = take (nat k) (documents r),
                   metadatas = take (nat k) (metadatas r),
                   distances = take (nat k) (distances r)\<rparr>"

definition ranked_backend :: "search_result \<Rightarrow> backend" where
  "ranked_backend r query k = Inr (top_hits k r)"

definition strict_backend :: "search_result \<Rightarrow> backend" where
  "strict_backend r query k =
     (if int (length (documents r)) < k then Inl (BackendError ''not enough elements'')
      else Inr (top_hits k r))"

definition startup_pool :: search_result where
  "startup_pool =
     \<lparr>documents = [''We talk about funding'', ''My first Startup failed'', ''Hiring is hard'',
                   ''Markets move fast'', ''Founders need sleep''],
      metadatas = [None, None, None, None, None],
      distances = [1, 2, 3, 4, 5]\<rparr>"

definition two_docs :: search_result where
  "two_docs = \<lparr>documents = [''alpha beta'', ''gamma''], metadatas = [None, None],
               distances = [1, 2]\<rparr>"

definition chunk_meta :: "nat \<Rightarrow> metadata option" where
  "chunk_meta i =
     Some \<lparr>meta_episode_id = Some ''ep1'', meta_episode_title = Some ''Pilot'',
           meta_start_time = Some (IntNum (30 * int i)),
           meta_end_time = Some (IntNum (30 * int i + 30)),
           meta_speaker = Some ''Speaker_0'', meta_chunk_index = Some i\<rparr>"

definition tagged_pool :: search_result where
  "tagged_pool =
     \<lparr>documents = [''We talk about funding'', ''My first Startup failed'', ''Hiring is hard'',
                   ''Markets move fast'', ''Founders need sleep''],
      metadatas = [chunk_meta 0, chunk_meta 1, chunk_meta 2, chunk_meta 3, chunk_meta 4],
      distances = [1, 2, 3, 4, 5]\<rparr>"

definition repeat_pool :: search_result where
  "repeat_pool = \<lparr>documents = [''intro'', ''intro'', ''startup two''],
                  metadatas = [chunk_meta 0, chunk_meta 1, chunk_meta 2],
                  distances = [1, 2, 3]\<rparr>"


definition down_backend :: backend where
  "down_backend query k = Inl (BackendError ''unavailable'')"

section \<open>Answer Synthesizer: \<open>RAGEngine\<close>\<close>

text \<open>
  The engine holds the two API keys and the default model id. The two language models
  are parameters: given the prompt (and, for OpenAI, the system message) they answer with
  a text or raise, \<open>Inl\<close> carrying the message of the exception.
\<close>

record rag_engine =
  openai_key :: "string option"
  gemini_key :: "string option"
  default_model :: string

record search_info =
  info_strategy :: string
  info_model :: string
  results_count :: nat

record query_result =
  response :: string
  sources :: search_result
  info :: search_info

definition newline :: string where
  "newline = [CHR 0x0A]"

definition quote :: string where
  "quote = [CHR 0x27]"

fun join :: "string \<Rightarrow> string list \<Rightarrow> string" where
  "join sep [] = []"
| "join sep [p] = p"
| "join sep (p # q # ps) = p @ sep @ join sep (q # ps)"

text \<open>A metadata dictionary is true when it is not \<open>None\<close> and has a key.\<close>

definition meta_truthy :: "metadata option \<Rightarrow> bool" where
  "meta_truthy m =
     (case m of
        None \<Rightarrow> False
      | Some d \<Rightarrow> meta_episode_id d \<noteq> None \<or> meta_episode_title d \<noteq> None \<or>
                  meta_start_time d \<noteq> None \<or> meta_end_time d \<noteq> None \<or>
                  meta_speaker d \<noteq> None \<or> meta_chunk_index d \<noteq> None)"

definition get_or :: "'a option \<Rightarrow> 'a \<Rightarrow> 'a" where
  "get_or v dflt = (case v of None \<Rightarrow> dflt | Some x \<Rightarrow> x)"

definition context_part :: "float_ops \<Rightarrow> nat \<Rightarrow> string \<Rightarrow> metadata \<Rightarrow> string" where
  "context_part ops i doc md =
     (let episode_title = get_or (meta_episode_title md) ''Unknown Episode'';
          start_time = get_or (meta_start_time md) (IntNum 0);
          end_time = get_or (meta_end_time md) (IntNum 0);
          speaker = get_or (meta_speaker md) ''Unknown Speaker'';
          start_str = format_timestamp ops start_time;
          end_str = format_timestamp ops end_time
      in newline @ ''Source '' @ str_nat (i + 1) @ '' - '' @ episode_title @
         '' ('' @ start_str @ '' - '' @ end_str @ '')'' @ newline @
         ''Speaker: '' @ speaker @ newline @
         ''Content: '' @ doc @ newline)"

fun context_parts :: "float_ops \<Rightarrow> (nat \<times> string \<times> metadata option) list \<Rightarrow>
    string list" where
  "context_parts ops [] = []"
| "context_parts ops ((i, doc, m) # rest) =
     (case m of
        Some md \<Rightarrow>
          if doc \<noteq> [] \<and> meta_truthy m
          then context_part ops i doc md # context_parts ops rest
          else context_parts ops rest
      | None \<Rightarrow> context_parts ops rest)"

definition format_context :: "float_ops \<Rightarrow> search_result \<Rightarrow> string" where
  "format_context ops search_results =
     (if documents search_results = [] then ''No relevant content found.''
      else join newline
             (context_parts ops (enumerate 0 (zip (documents search_results)
                                              (metadatas search_results)))))"

definition prompt_text :: "string \<Rightarrow> string \<Rightarrow> string" where
  "prompt_text ctx query =
     ''You are an AI assistant that helps users find information from podcast transcripts. '' @
     newline @
     ''Based on the provided context from podcast episodes, answer the user'' @ quote @
     ''s question accurately and provide specific timestamps when possible.'' @
     newline @ newline @
     ''Context from podcast transcripts:'' @ newline @ ctx @ newline @ newline @
     ''User Question: '' @ query @ newline @ newline @
     ''Instructions:'' @ newline @
     ''1. Answer based only on the provided context'' @ newline @
     ''2. Include specific episode titles and timestamps in your response'' @ newline @
     ''3. If the context doesn'' @ quote @ ''t contain enough information, say so'' @ newline @
     ''4. Provide direct quotes when relevant'' @ newline @
     ''5. Format timestamps as MM:SS'' @ newline @
     ''6. Mention speakers when relevant'' @ newline @
     ''7. If searching across multiple episodes, highlight patterns or differences'' @
     newline @ newline @ ''Answer:''"

definition key_set :: "string option \<Rightarrow> bool" where
  "key_set k = (case k of None \<Rightarrow> False | Some s \<Rightarrow> s \<noteq> [])"

definition generate_gemini_response :: "rag_engine \<Rightarrow> (string \<Rightarrow> string + string) \<Rightarrow>
    string \<Rightarrow> string \<Rightarrow> string \<Rightarrow> string" where
  "generate_gemini_response engine gemini query ctx search_strategy =
     (if \<not> key_set (gemini_key engine)
      then ''Error: Gemini API key not configured. Please set your Gemini API key in config.json or environment variables.''
      else (case gemini (prompt_text ctx query) of
              Inl msg \<Rightarrow> ''Error generating response: '' @ msg
            | Inr answer \<Rightarrow> answer))"

definition generate_openai_response :: "rag_engine \<Rightarrow> (string \<Rightarrow> string \<Rightarrow> string + string) \<Rightarrow>
    string \<Rightarrow> string \<Rightarrow> string \<Rightarrow> string" where
  "generate_openai_response engine openai query ctx search_strategy =
     (if \<not> key_set (openai_key engine)
      then ''Error: OpenAI API key not configured. Please set your OpenAI API key in config.json or environment variables.''
      else (case openai
                  ''You are a helpful assistant that analyzes podcast content and provides accurate, timestamped responses.''
                  (prompt_text ctx query) of
              Inl msg \<Rightarrow> ''Error generating response: '' @ msg
            | Inr answer \<Rightarrow> answer))"

text \<open>
  \<open>query_podcasts\<close>: every call in its \<open>try\<close> block catches its own exceptions
  (\<open>search_similar_content\<close>, \<open>format_context\<close> and the two generators return a value
  in every case), so the \<open>except\<close> branch of \<open>query_podcasts\<close> is never entered and
  the model has no such branch.
\<close>

definition query_podcasts :: "float_ops \<Rightarrow> rag_engine \<Rightarrow> (string \<Rightarrow> string + string) \<Rightarrow>
    (string \<Rightarrow> string \<Rightarrow> string + string) \<Rightarrow> backend \<Rightarrow> string \<Rightarrow> int \<Rightarrow> string \<Rightarrow>
    string option \<Rightarrow> query_result" where
  "query_podcasts ops engine gemini openai collection query n_results search_strategy model =
     (let model_id = (case model of None \<Rightarrow> default_model engine | Some m \<Rightarrow> m);
          search_results = search_similar_content collection query n_results search_strategy;
          ctx = format_context ops search_results;
          answer =
            (if model_id = ''gemini''
             then generate_gemini_response engine gemini query ctx search_strategy
             else if model_id = ''openai''
             then generate_openai_response engine openai query ctx search_strategy
             else ''Error: Unknown model '' @ quote @ model_id @ quote @
                  ''. Available models: gemini, openai'')
      in \<lparr>response = answer,
          sources = search_results,
          info = \<lparr>info_strategy = search_strategy, info_model = model_id,
                   results_count = length (documents search_results)\<rparr>\<rparr>)"

definition example_engine :: rag_engine where
  "example_engine = \<lparr>openai_key = None, gemini_key = Some ''key'', default_model = ''gemini''\<rparr>"

section \<open>Temporal Chunker: properties\<close>

lemmas chunker_defs =
  chunk_transcript_by_time_def chunk_loop_def chunk_step_def absorbed_def fresh_chunk_def
  empty_chunk_def speaker_for_def chunk_span_def strip_def isspace_def enumerate_eq_zip Let_def
  exact_ops_def closes_on_duration_def

text \<open>
  C1. The spec's example: segments at 0 to 10s, 10.5 to 15s and 18 to 25s with speakers
  0, 0, 1 and threshold 30 (float subtraction is exact on these times). The segment of
  \<open>Speaker_1\<close> is absorbed before the speaker test, so the chunk closed at the speaker
  change is labelled \<open>Speaker_0\<close>, ends at 25s (not 15s) and holds the text \<open>ok\<close>
  spoken by \<open>Speaker_1\<close>: it is not speaker-homogeneous.
\<close>

theorem speaker_change_chunk_holds_both_speakers:
  "chunk_transcript_by_time exact_ops pause_example (Some pause_example_speakers) 30 =
     [\<lparr>chunk_text = '' hello world ok'', start_time = Some 0, end_time = Some 25,
       chunk_words = [], speaker = ''Speaker_0''\<rparr>,
      \<lparr>chunk_text = ''ok'', start_time = Some 18, end_time = Some 25,
       chunk_words = [], speaker = ''Speaker_1''\<rparr>]"
  by (simp add: pause_example_def pause_example_speakers_def chunker_defs upt_rec)

text \<open>
  C2. A transcript of one segment from 0 to 40s with threshold 30 (40 - 0 is exact): the
  segment is absorbed, the chunk is closed by the duration test, and the next chunk is
  opened with the same segment again, so the segment's text is in two chunks.
\<close>

theorem long_segment_in_two_chunks:
  "chunk_transcript_by_time exact_ops
       [\<lparr>seg_start = 0, seg_end = 40, seg_text = ''hello'', seg_words = []\<rparr>] None 30 =
     [\<lparr>chunk_text = '' hello'', start_time = Some 0, end_time = Some 40,
       chunk_words = [], speaker = ''Unknown''\<rparr>,
      \<lparr>chunk_text = ''hello'', start_time = Some 0, end_time = Some 40,
       chunk_words = [], speaker = ''Unknown''\<rparr>]"
  by (simp add: chunker_defs upt_rec)


















section \<open>Speaker Segmenter: properties\<close>

lemma of_char_digit_char:
  assumes "d < 10"
  shows "(of_char (digit_char d) :: nat) = 48 + d"
proof -
  from assms have "d = 0 \<or> d = 1 \<or> d = 2 \<or> d = 3 \<or> d = 4 \<or> d = 5 \<or> d = 6 \<or> d = 7 \<or> d = 8 \<or> d = 9"
    by arith
  then show ?thesis
    by (elim disjE) (simp_all add: digit_char_def)
qed

lemma digit_char_inj:
  assumes "d < 10" and "d' < 10" and "digit_char d = digit_char d'"
  shows "d = d'"
proof -
  have "(of_char (digit_char d) :: nat) = of_char (digit_char d')"
    using assms(3) by simp
  then have "48 + d = 48 + d'"
    by (simp only: of_char_digit_char [OF assms(1)] of_char_digit_char [OF assms(2)])
  then show ?thesis by simp
qed

lemma str_nat_not_Nil: "str_nat n \<noteq> []"
  by (subst str_nat.simps) simp

lemma str_nat_small: "n < 10 \<Longrightarrow> str_nat n = [digit_char n]"
  by (subst str_nat.simps) simp

lemma str_nat_large: "\<not> n < 10 \<Longrightarrow> str_nat n = str_nat (n div 10) @ [digit_char (n mod 10)]"
  by (subst str_nat.simps) simp

lemma str_nat_inj: "str_nat m = str_nat n \<Longrightarrow> m = n"
proof (induction m arbitrary: n rule: str_nat.induct)
  case (1 m)
  show ?case
  proof (cases "m < 10")
    case msmall: True
    show ?thesis
    proof (cases "n < 10")
      case True
      with msmall "1.prems" show ?thesis
        by (simp add: str_nat_small digit_char_inj)
    next
      case False
      with msmall "1.prems" show ?thesis
        by (simp add: str_nat_small str_nat_large str_nat_not_Nil [THEN not_sym])
    qed
  next
    case mlarge: False
    show ?thesis
    proof (cases "n < 10")
      case True
      with mlarge "1.prems" show ?thesis
        by (simp add: str_nat_small str_nat_large str_nat_not_Nil)
    next
      case False
      with mlarge "1.prems" have eq: "str_nat (m div 10) = str_nat (n div 10)"
        and dg: "digit_char (m mod 10) = digit_char (n mod 10)"
        by (simp_all add: str_nat_large)
      from "1.IH" [OF mlarge eq] have "m div 10 = n div 10" .
      moreover from dg have "m mod 10 = n mod 10"
        by (intro digit_char_inj) simp_all
      ultimately show ?thesis by (metis div_mult_mod_eq)
    qed
  qed
qed

lemma speaker_label_inj: "speaker_label m = speaker_label n \<longleftrightarrow> m = n"
  by (auto simp add: speaker_label_def dest: str_nat_inj)

lemma speaker_index_mono_Suc: "speaker_index ops segs i \<le> speaker_index ops segs (Suc i)"
  by simp

lemma speaker_index_mono: "i \<le> j \<Longrightarrow> speaker_index ops segs i \<le> speaker_index ops segs j"
  by (induction j) (auto simp add: le_Suc_eq)

lemma speaker_step_inv:
  assumes "k < length segs"
  shows "speaker_step ops segs (labelled_upto ops segs k, speaker_index ops segs (k - 1)) (k, segs ! k) =
         Inr (labelled_upto ops segs (Suc k), speaker_index ops segs k)"
proof (cases k)
  case 0
  then show ?thesis
    by (auto simp add: speaker_step_def labelled_upto_def Let_def fun_eq_iff)
next
  case (Suc j)
  with assms have "j < length segs" by simp
  with Suc show ?thesis
    by (auto simp add: speaker_step_def labelled_upto_def Let_def fun_eq_iff get_item_def
          pause_before_def less_Suc_eq)
qed

lemma speakers_loop_inv:
  "k \<le> length segs \<Longrightarrow>
   speakers_loop ops segs (enumerate k (drop k segs)) (labelled_upto ops segs k, speaker_index ops segs (k - 1)) =
     Inr (labelled_upto ops segs (length segs), speaker_index ops segs (length segs - 1))"
proof (induction "length segs - k" arbitrary: k)
  case 0
  then show ?case by simp
next
  case (Suc n)
  then have k: "k < length segs" by simp
  then have dr: "drop k segs = segs ! k # drop (Suc k) segs"
    by (simp add: Cons_nth_drop_Suc)
  from Suc have "n = length segs - Suc k" by simp
  from Suc.hyps(1) [OF this] k
  have IH: "speakers_loop ops segs (enumerate (Suc k) (drop (Suc k) segs))
       (labelled_upto ops segs (Suc k), speaker_index ops segs k) =
     Inr (labelled_upto ops segs (length segs), speaker_index ops segs (length segs - 1))"
    by simp
  show ?case
    by (simp only: dr enumerate_simps speakers_loop.simps speaker_step_inv [OF k] sum.case IH)
qed

lemma identify_speakers_eq:
  "identify_speakers ops segs = labelled_upto ops segs (length segs)"
proof (cases "segs = []")
  case True
  then show ?thesis by (simp add: identify_speakers_def labelled_upto_def)
next
  case False
  have "labelled_upto ops segs 0 = Map.empty" by (simp add: labelled_upto_def)
  with speakers_loop_inv [of 0 segs ops] False show ?thesis
    by (simp add: identify_speakers_def)
qed

text \<open>
  C7. For a non-empty transcript, and whatever the float subtraction rounds to, the
  dictionary returned by \<open>identify_speakers\<close> has exactly the segment indices as keys,
  labels segment 0 \<open>Speaker_0\<close> and segment \<open>i\<close> with the spec's running counter; at a
  segment whose pause, the float difference of its start and its predecessor's end, is
  above 2.0 the counter is incremented and the label differs from every earlier label,
  otherwise the label is the predecessor's; the counter never decreases.
\<close>

theorem identify_speakers_labels:
  assumes "segments \<noteq> []"
  shows "dom (identify_speakers ops segments) = {..<length segments} \<and>
    identify_speakers ops segments 0 = Some ''Speaker_0'' \<and>
    (\<forall>i<length segments.
       identify_speakers ops segments i = Some (speaker_label (speaker_index ops segments i))) \<and>
    speaker_index ops segments 0 = 0 \<and>
    (\<forall>i. Suc i < length segments \<longrightarrow>
       (if fsub ops (seg_start (segments ! Suc i)) (seg_end (segments ! i)) > 2
        then speaker_index ops segments (Suc i) = Suc (speaker_index ops segments i) \<and>
             (\<forall>j\<le>i. identify_speakers ops segments (Suc i) \<noteq> identify_speakers ops segments j)
        else speaker_index ops segments (Suc i) = speaker_index ops segments i \<and>
             identify_speakers ops segments (Suc i) = identify_speakers ops segments i)) \<and>
    (\<forall>i j. i \<le> j \<longrightarrow> speaker_index ops segments i \<le> speaker_index ops segments j)"
proof -
  let ?sp = "identify_speakers ops segments"
  have eq: "?sp = labelled_upto ops segments (length segments)"
    by (rule identify_speakers_eq)
  have lab: "\<And>i. i < length segments \<Longrightarrow> ?sp i = Some (speaker_label (speaker_index ops segments i))"
    by (simp add: eq labelled_upto_def)
  have d: "dom ?sp = {..<length segments}"
    by (auto simp add: eq labelled_upto_def dom_def)
  have z: "?sp 0 = Some ''Speaker_0''"
    using assms lab [of 0] by (simp add: speaker_label_def str_nat.simps digit_char_def)
  have pb: "pause_before ops segments (Suc i) =
      fsub ops (seg_start (segments ! Suc i)) (seg_end (segments ! i))" for i
    by (simp add: pause_before_def)
  have step: "if fsub ops (seg_start (segments ! Suc i)) (seg_end (segments ! i)) > 2
        then speaker_index ops segments (Suc i) = Suc (speaker_index ops segments i) \<and>
             (\<forall>j\<le>i. ?sp (Suc i) \<noteq> ?sp j)
        else speaker_index ops segments (Suc i) = speaker_index ops segments i \<and>
             ?sp (Suc i) = ?sp i" if i: "Suc i < length segments" for i
  proof (cases "fsub ops (seg_start (segments ! Suc i)) (seg_end (segments ! i)) > 2")
    case True
    then have inc: "speaker_index ops segments (Suc i) = Suc (speaker_index ops segments i)"
      by (simp add: pb)
    have "?sp (Suc i) \<noteq> ?sp j" if "j \<le> i" for j
    proof -
      have "speaker_index ops segments j \<le> speaker_index ops segments i"
        using that by (rule speaker_index_mono)
      with inc have "speaker_index ops segments (Suc i) \<noteq> speaker_index ops segments j" by simp
      moreover have "j < length segments" using that i by simp
      ultimately show ?thesis
        using lab [OF i] lab [of j] by (simp add: speaker_label_inj)
    qed
    with True inc show ?thesis by simp
  next
    case False
    then have "speaker_index ops segments (Suc i) = speaker_index ops segments i"
      by (simp add: pb)
    moreover have "i < length segments" using i by simp
    ultimately show ?thesis using False lab [OF i] lab [of i] by simp
  qed
  have z0: "speaker_index ops segments 0 = 0" by simp
  from d z z0 lab step speaker_index_mono show ?thesis by blast
qed

theorem identify_speakers_labels_witness:
  "pause_example \<noteq> [] \<and>
   dom (identify_speakers exact_ops pause_example) = {..<3} \<and>
   identify_speakers exact_ops pause_example 0 = Some ''Speaker_0'' \<and>
   identify_speakers exact_ops pause_example 1 = Some ''Speaker_0'' \<and>
   identify_speakers exact_ops pause_example 2 = Some ''Speaker_1'' \<and>
   pause_before exact_ops pause_example 2 > 2 \<and> \<not> pause_before exact_ops pause_example 1 > 2"
proof -
  have ne: "pause_example \<noteq> []" by (simp add: pause_example_def)
  have len: "length pause_example = 3" by (simp add: pause_example_def)
  have p1: "\<not> pause_before exact_ops pause_example (Suc 0) > 2"
    by (simp add: pause_before_def pause_example_def exact_ops_def)
  have p2: "pause_before exact_ops pause_example (Suc (Suc 0)) > 2"
    by (simp add: pause_before_def pause_example_def exact_ops_def)
  note T = identify_speakers_labels [OF ne]
  from T have d: "dom (identify_speakers exact_ops pause_example) = {..<3}" by (simp add: len)
  from T have z: "identify_speakers exact_ops pause_example 0 = Some ''Speaker_0''" by blast
  from T have "Suc 0 < length pause_example \<longrightarrow>
       (if fsub exact_ops (seg_start (pause_example ! Suc 0)) (seg_end (pause_example ! 0)) > 2
        then speaker_index exact_ops pause_example (Suc 0) = Suc (speaker_index exact_ops pause_example 0) \<and>
             (\<forall>j\<le>0. identify_speakers exact_ops pause_example (Suc 0) \<noteq> identify_speakers exact_ops pause_example j)
        else speaker_index exact_ops pause_example (Suc 0) = speaker_index exact_ops pause_example 0 \<and>
             identify_speakers exact_ops pause_example (Suc 0) = identify_speakers exact_ops pause_example 0)"
    by blast
  with p1 len z have one: "identify_speakers exact_ops pause_example 1 = Some ''Speaker_0''"
    by (simp add: pause_before_def)
  from T have "\<forall>i<length pause_example.
       identify_speakers exact_ops pause_example i = Some (speaker_label (speaker_index exact_ops pause_example i))"
    by blast
  then have "identify_speakers exact_ops pause_example 2 =
      Some (speaker_label (speaker_index exact_ops pause_example (Suc (Suc 0))))"
    by (simp add: len numeral_2_eq_2)
  with p1 p2 have two: "identify_speakers exact_ops pause_example 2 = Some ''Speaker_1''"
    by (simp add: speaker_label_def str_nat.simps digit_char_def)
  from ne d z one two p1 p2 show ?thesis by (simp add: numeral_2_eq_2)
qed

section \<open>Timestamp formatting: properties\<close>

lemmas format_defs = format_timestamp_def format_time_def format_timestamp_body_def
  format_02d_def zero_pad_def digit_char_def Let_def

lemma format_timestamp_125: "format_timestamp ops (IntNum 125) = ''02:05''"
  by (simp add: format_defs str_nat.simps)

lemma format_timestamp_minus_1: "format_timestamp ops (IntNum (- 1)) = ''-1:59''"
  by (simp add: format_defs str_nat.simps)

text \<open>
  C8 (amended). \<open>_format_timestamp\<close> and \<open>format_time\<close> return the values of
  \<open>seconds // 60\<close> and \<open>seconds % 60\<close>, converted by \<open>int()\<close>, each with the format
  \<open>:02d\<close> and separated by a colon, so 125 gives \<open>02:05\<close>; for a value that is not a
  number, and for a float that is not finite, they return \<open>00:00\<close>. The number
  \<open>-1\<close> raises nothing and gives \<open>-1:59\<close>.
\<close>

theorem format_timestamp_values:
  "format_timestamp ops (IntNum 125) = ''02:05'' \<and>
   format_time ops (IntNum 125) = ''02:05'' \<and>
   format_timestamp ops NonNumeric = ''00:00'' \<and>
   format_time ops NonNumeric = ''00:00'' \<and>
   format_timestamp ops NonFinite = ''00:00'' \<and>
   format_time ops NonFinite = ''00:00'' \<and>
   format_timestamp ops (IntNum i) = format_02d (i div 60) @ '':'' @ format_02d (i mod 60) \<and>
   format_timestamp ops (FloatNum x) =
     format_02d (py_int (ffloordiv ops x 60)) @ '':'' @ format_02d (py_int (fmod ops x 60)) \<and>
   format_time ops (IntNum i) = format_timestamp ops (IntNum i) \<and>
   format_time ops (FloatNum x) = format_timestamp ops (FloatNum x) \<and>
   format_timestamp ops (IntNum (- 1)) = ''-1:59''"
proof -
  have "format_time ops (IntNum 125) = ''02:05''"
    using format_timestamp_125 [of ops] by (simp add: format_timestamp_def format_time_def)
  moreover have "format_timestamp ops NonNumeric = ''00:00''"
    and "format_time ops NonNumeric = ''00:00''"
    and "format_timestamp ops NonFinite = ''00:00''"
    and "format_time ops NonFinite = ''00:00''"
    by (simp_all add: format_timestamp_def format_time_def format_timestamp_body_def)
  moreover have "format_timestamp ops (IntNum i) =
      format_02d (i div 60) @ '':'' @ format_02d (i mod 60)"
    and "format_timestamp ops (FloatNum x) =
      format_02d (py_int (ffloordiv ops x 60)) @ '':'' @ format_02d (py_int (fmod ops x 60))"
    by (simp_all add: format_timestamp_def format_timestamp_body_def Let_def)
  moreover have "format_time ops (IntNum i) = format_timestamp ops (IntNum i)"
    and "format_time ops (FloatNum x) = format_timestamp ops (FloatNum x)"
    by (simp_all add: format_timestamp_def format_time_def)
  ultimately show ?thesis
    using format_timestamp_125 [of ops] format_timestamp_minus_1 [of ops] by simp
qed

text \<open>C8 as stated fails at \<open>-1\<close>: floor division and remainder do not raise, so the
  \<open>except\<close> branch that gives \<open>00:00\<close> is not taken.\<close>

theorem negative_seconds_not_zeroed:
  "format_timestamp exact_ops (IntNum (- 1)) \<noteq> ''00:00'' \<and>
   format_time exact_ops (IntNum (- 1)) \<noteq> ''00:00''"
  by (simp add: format_defs str_nat.simps)
section \<open>Content Index: properties of the search strategies\<close>

lemma contains_iff_sublist: "contains t d \<longleftrightarrow> sublist t d"
  by (induction d) (simp_all add: sublist_Cons_right)

lemma contains_iff: "contains t d \<longleftrightarrow> (\<exists>p s. d = p @ t @ s)"
  by (simp add: contains_iff_sublist sublist_def)

lemma any_term_in_iff:
  "any_term_in ts doc \<longleftrightarrow> (\<exists>t\<in>set ts. \<exists>p s. lower doc = p @ t @ s)"
  by (simp add: any_term_in_def list_ex_iff contains_iff)

lemma append_hit_ok:
  assumes "i < length (metadatas r)" and "i < length (distances r)"
  shows "append_hit r i doc acc =
     Inr \<lparr>documents = documents acc @ [doc], metadatas = metadatas acc @ [metadatas r ! i],
          distances = distances acc @ [distances r ! i]\<rparr>"
  using assms by (simp add: append_hit_def get_item_def)

lemma well_formed_appended:
  "well_formed acc \<Longrightarrow>
   well_formed \<lparr>documents = documents acc @ [doc], metadatas = metadatas acc @ [m],
          distances = distances acc @ [d]\<rparr>"
  by (simp add: well_formed_def)

lemma well_formed_empty: "well_formed empty_result"
  by (simp add: well_formed_def empty_result_def)

lemma full_iff: "0 < n \<Longrightarrow> (n \<le> int l) \<longleftrightarrow> (nat n \<le> l)"
  by arith

lemma keyword_loop_ok:
  assumes "\<forall>p\<in>set ids. fst p < length (metadatas r) \<and> fst p < length (distances r)"
    and "length (documents acc) < nat n"
  shows "\<exists>acc'. keyword_loop ts n r ids acc = Inr acc' \<and>
       documents acc' = documents acc @
          take (nat n - length (documents acc)) (filter (any_term_in ts) (map snd ids)) \<and>
       (well_formed acc \<longrightarrow> well_formed acc')"
  using assms
proof (induction ids arbitrary: acc)
  case Nil
  then show ?case by simp
next
  case (Cons p rest)
  obtain i doc where p: "p = (i, doc)" by (cases p)
  from Cons.prems have n: "0 < n" by simp
  from Cons.prems p have i: "i < length (metadatas r)" "i < length (distances r)" by simp_all
  from Cons.prems have rest: "\<forall>p\<in>set rest. fst p < length (metadatas r) \<and> fst p < length (distances r)"
    by simp
  show ?case
  proof (cases "any_term_in ts doc")
    case False
    from Cons.IH [OF rest Cons.prems(2)] obtain acc' where
      "keyword_loop ts n r rest acc = Inr acc'"
      "documents acc' = documents acc @
          take (nat n - length (documents acc)) (filter (any_term_in ts) (map snd rest))"
      "well_formed acc \<longrightarrow> well_formed acc'" by blast
    with False Cons.prems(2) n show ?thesis
      by (simp add: p full_iff)
  next
    case True
    let ?acc1 = "\<lparr>documents = documents acc @ [doc], metadatas = metadatas acc @ [metadatas r ! i],
          distances = distances acc @ [distances r ! i]\<rparr>"
    have ah: "append_hit r i doc acc = Inr ?acc1" using i by (rule append_hit_ok)
    have wf1: "well_formed acc \<longrightarrow> well_formed ?acc1" by (simp add: well_formed_def)
    show ?thesis
    proof (cases "nat n \<le> Suc (length (documents acc))")
      case full: True
      with Cons.prems(2) have "nat n - length (documents acc) = Suc 0" by simp
      moreover from full n have "n \<le> 1 + int (length (documents acc))" by arith
      ultimately show ?thesis using True ah wf1
        by (simp add: p)
    next
      case notfull: False
      then have lt: "length (documents ?acc1) < nat n" by simp
      from Cons.IH [OF rest lt] obtain acc' where a:
        "keyword_loop ts n r rest ?acc1 = Inr acc'"
        "documents acc' = documents ?acc1 @
          take (nat n - length (documents ?acc1)) (filter (any_term_in ts) (map snd rest))"
        "well_formed ?acc1 \<longrightarrow> well_formed acc'" by blast
      from notfull have "nat n - length (documents acc) = Suc (nat n - Suc (length (documents acc)))"
        by simp
      moreover from notfull n have "\<not> n \<le> 1 + int (length (documents acc))" by arith
      ultimately show ?thesis using True ah wf1 a
        by (simp add: p)
    qed
  qed
qed

lemma enumerate_indices:
  "length xs \<le> m \<Longrightarrow> \<forall>p\<in>set (enumerate 0 xs). fst p < m"
  by (auto simp add: in_set_enumerate_eq)

lemma keyword_loop_no_terms: "keyword_loop [] n r ids acc = Inr acc"
  by (induction ids arbitrary: acc) (auto simp add: any_term_in_def)

lemma lower_char_space: "isspace c \<Longrightarrow> lower_char c = c"
  by (auto simp add: isspace_def lower_char_def Let_def)

lemma split_acc_spaces: "\<forall>c\<in>set s. isspace c \<Longrightarrow> split_acc [] s = []"
  by (induction s) simp_all

lemma split_lower_spaces: "\<forall>c\<in>set q. isspace c \<Longrightarrow> split (lower q) = []"
proof -
  assume a: "\<forall>c\<in>set q. isspace c"
  then have "lower q = q" by (simp add: lower_def lower_char_space map_idI)
  with a show ?thesis by (simp add: split_def split_acc_spaces)
qed

lemma dedup_first_Nil: "dedup_first [] = []"
  by (simp add: dedup_first_def)

lemma set_dedup_first: "set (dedup_first xs) = set xs"
  by (simp add: dedup_first_def)

lemma distinct_dedup_first: "distinct (dedup_first xs)"
  by (simp add: dedup_first_def)

lemma length_dedup_first: "length (dedup_first xs) \<le> length xs"
  using length_remdups_leq [of "rev xs"] by (simp add: dedup_first_def)

lemma dedup_first_distinct: "distinct xs \<Longrightarrow> dedup_first xs = xs"
  by (simp add: dedup_first_def distinct_remdups_id)

lemma dedup_first_snoc:
  "dedup_first (ys @ [x]) = (if x \<in> set ys then dedup_first ys else dedup_first ys @ [x])"
  by (simp add: dedup_first_def)

lemma remdups_append_filter:
  "remdups (xs @ ys) = filter (\<lambda>x. x \<notin> set ys) (remdups xs) @ remdups ys"
  by (induction xs) auto

lemma dedup_first_append:
  "dedup_first (xs @ ys) = dedup_first xs @ filter (\<lambda>y. y \<notin> set xs) (dedup_first ys)"
  by (simp add: dedup_first_def remdups_append_filter rev_filter)

lemma dedup_into_eq: "dedup_into (dedup_first pre) xs = dedup_first (pre @ xs)"
proof (induction xs arbitrary: pre)
  case Nil
  show ?case by simp
next
  case (Cons x xs)
  have "dedup_into (dedup_first pre) (x # xs) = dedup_into (dedup_first (pre @ [x])) xs"
    by (simp add: dedup_first_snoc set_dedup_first)
  also have "\<dots> = dedup_first ((pre @ [x]) @ xs)" by (rule Cons.IH)
  finally show ?case by simp
qed

lemma prefix_dedup_into: "prefix acc (dedup_into acc xs)"
proof (induction xs arbitrary: acc)
  case Nil
  show ?case by simp
next
  case (Cons x xs)
  have "prefix acc (if x \<in> set acc then acc else acc @ [x])" by simp
  also have "prefix \<dots> (dedup_into (if x \<in> set acc then acc else acc @ [x]) xs)"
    by (rule Cons.IH)
  finally show ?case by simp
qed

lemma take_of_prefix: "prefix a b \<Longrightarrow> n \<le> length a \<Longrightarrow> take n b = take n a"
  by (auto simp add: prefix_def)

lemma append_hit_wf:
  "append_hit r i doc acc = Inr acc' \<Longrightarrow> well_formed acc \<Longrightarrow> well_formed acc'"
  by (auto simp add: append_hit_def well_formed_def split: sum.splits)

lemma keyword_loop_wf:
  "keyword_loop ts n r ids acc = Inr acc' \<Longrightarrow> well_formed acc \<Longrightarrow> well_formed acc'"
proof (induction ids arbitrary: acc)
  case Nil
  then show ?case by simp
next
  case (Cons p rest)
  obtain i doc where p: "p = (i, doc)" by (cases p)
  show ?case
  proof (cases "any_term_in ts doc")
    case False
    with Cons.prems p show ?thesis
      by (auto split: if_splits dest: Cons.IH)
  next
    case True
    with Cons.prems p obtain acc1 where a: "append_hit r i doc acc = Inr acc1"
      by (auto split: sum.splits)
    from a Cons.prems(2) have w: "well_formed acc1" by (rule append_hit_wf)
    from Cons.prems(1) True p a w show ?thesis
      by (auto split: if_splits dest: Cons.IH)
  qed
qed

lemma well_formed_keyword_search: "well_formed (keyword_search collection query n)"
  by (auto simp add: keyword_search_def well_formed_empty split: sum.splits
        dest: keyword_loop_wf)

lemma semantic_merge_loop_ok:
  assumes "\<forall>p\<in>set ids. fst p < length (metadatas r) \<and> fst p < length (distances r)"
  shows "\<exists>c'. semantic_merge_loop r ids c = Inr c' \<and>
       documents c' = dedup_into (documents c) (map snd ids) \<and>
       (well_formed c \<longrightarrow> well_formed c')"
  using assms
proof (induction ids arbitrary: c)
  case Nil
  then show ?case by simp
next
  case (Cons p rest)
  obtain i doc where p: "p = (i, doc)" by (cases p)
  from Cons.prems p have i: "i < length (metadatas r)" "i < length (distances r)" by simp_all
  from Cons.prems have rest: "\<forall>p\<in>set rest. fst p < length (metadatas r) \<and> fst p < length (distances r)"
    by simp
  let ?c1 = "\<lparr>documents = documents c @ [doc], metadatas = metadatas c @ [metadatas r ! i],
          distances = distances c @ [distances r ! i]\<rparr>"
  have ah: "append_hit r i doc c = Inr ?c1" using i by (rule append_hit_ok)
  have wf1: "well_formed c \<longrightarrow> well_formed ?c1" by (simp add: well_formed_def)
  show ?case
  proof (cases "doc \<in> set (documents c)")
    case True
    with Cons.IH [OF rest, of c] show ?thesis by (simp add: p)
  next
    case False
    with Cons.IH [OF rest, of ?c1] ah wf1 show ?thesis by (auto simp add: p)
  qed
qed

lemma keyword_merge_loop_ok:
  assumes "\<forall>p\<in>set ids. fst p < length (metadatas r) \<and> fst p < length (distances r)"
    and "0 \<le> n"
  shows "\<exists>c'. keyword_merge_loop n r ids c = Inr c' \<and>
       take (nat n) (documents c') = take (nat n) (dedup_into (documents c) (map snd ids)) \<and>
       (well_formed c \<longrightarrow> well_formed c')"
  using assms
proof (induction ids arbitrary: c)
  case Nil
  then show ?case by simp
next
  case (Cons p rest)
  obtain i doc where p: "p = (i, doc)" by (cases p)
  from Cons.prems p have i: "i < length (metadatas r)" "i < length (distances r)" by simp_all
  from Cons.prems have rest: "\<forall>p\<in>set rest. fst p < length (metadatas r) \<and> fst p < length (distances r)"
    by simp
  note IH = Cons.IH [OF rest Cons.prems(2)]
  let ?c1 = "\<lparr>documents = documents c @ [doc], metadatas = metadatas c @ [metadatas r ! i],
          distances = distances c @ [distances r ! i]\<rparr>"
  have ah: "append_hit r i doc c = Inr ?c1" using i by (rule append_hit_ok)
  have wf1: "well_formed c \<longrightarrow> well_formed ?c1" by (simp add: well_formed_def)
  show ?case
  proof (cases "doc \<in> set (documents c)")
    case True
    with IH [of c] show ?thesis by (simp add: p)
  next
    case new: False
    show ?thesis
    proof (cases "int (length (documents c)) < n")
      case True
      with new IH [of ?c1] ah wf1 show ?thesis by (auto simp add: p)
    next
      case False
      with Cons.prems(2) have full: "nat n \<le> length (documents c)" by arith
      have "prefix (documents c) (dedup_into (documents c) (map snd rest))"
        by (rule prefix_dedup_into)
      then have a: "take (nat n) (dedup_into (documents c) (map snd rest)) = take (nat n) (documents c)"
        using full by (rule take_of_prefix)
      have "prefix (documents c @ [doc]) (dedup_into (documents c @ [doc]) (map snd rest))"
        by (rule prefix_dedup_into)
      then have "prefix (documents c) (dedup_into (documents c @ [doc]) (map snd rest))"
        by (rule append_prefixD)
      then have b: "take (nat n) (dedup_into (documents c @ [doc]) (map snd rest)) = take (nat n) (documents c)"
        using full by (rule take_of_prefix)
      from new False IH [of c] a b show ?thesis by (auto simp add: p)
    qed
  qed
qed

lemma keyword_merge_loop_full:
  "n \<le> int (length (documents c)) \<Longrightarrow> keyword_merge_loop n r ids c = Inr c"
  by (induction ids arbitrary: c) auto

lemma py_prefix_Nil: "py_prefix n [] = []"
  by (simp add: py_prefix_def)

lemma well_formed_indices:
  "well_formed r \<Longrightarrow>
   \<forall>p\<in>set (enumerate 0 (documents r)). fst p < length (metadatas r) \<and> fst p < length (distances r)"
  using enumerate_indices [of "documents r" "length (documents r)"]
  by (simp add: well_formed_def)

lemma hybrid_documents:
  assumes wf: "well_formed (semantic_search collection query n)"
    and n: "0 \<le> n"
  shows "documents (hybrid_search collection query n) =
           take (nat n) (dedup_first (documents (semantic_search collection query n) @
                                      documents (keyword_search collection query n))) \<and>
         well_formed (hybrid_search collection query n)"
proof -
  let ?sem = "semantic_search collection query n"
  let ?kw = "keyword_search collection query n"
  from semantic_merge_loop_ok [OF well_formed_indices [OF wf], of empty_result]
  obtain c1 where c1: "semantic_merge_loop ?sem (enumerate 0 (documents ?sem)) empty_result = Inr c1"
    "documents c1 = dedup_into (documents empty_result) (map snd (enumerate 0 (documents ?sem)))"
    "well_formed c1" by (auto simp add: well_formed_empty)
  from c1(2) have d1: "documents c1 = dedup_first (documents ?sem)"
    using dedup_into_eq [of "[]" "documents ?sem"]
    by (simp add: empty_result_def dedup_first_Nil)
  have wfk: "well_formed ?kw" by (rule well_formed_keyword_search)
  from keyword_merge_loop_ok [OF well_formed_indices [OF wfk] n, of c1]
  obtain c2 where c2: "keyword_merge_loop n ?kw (enumerate 0 (documents ?kw)) c1 = Inr c2"
    "take (nat n) (documents c2) =
       take (nat n) (dedup_into (documents c1) (map snd (enumerate 0 (documents ?kw))))"
    "well_formed c2" using c1(3) by auto
  from c2(2) have d2: "take (nat n) (documents c2) =
       take (nat n) (dedup_first (documents ?sem @ documents ?kw))"
    by (simp add: d1 dedup_into_eq)
  have h: "hybrid_search collection query n =
       \<lparr>documents = py_prefix n (documents c2), metadatas = py_prefix n (metadatas c2),
        distances = py_prefix n (distances c2)\<rparr>"
    by (simp add: hybrid_search_def Let_def c1(1) c2(1))
  from n d2 have "documents (hybrid_search collection query n) =
      take (nat n) (dedup_first (documents ?sem @ documents ?kw))"
    by (simp add: h py_prefix_def)
  moreover from n c2(3) have "well_formed (hybrid_search collection query n)"
    by (simp add: h py_prefix_def well_formed_def)
  ultimately show ?thesis by simp
qed

lemma any_term_in_fun:
  "(\<lambda>doc. \<exists>t\<in>set ts. \<exists>p s. lower doc = p @ t @ s) = any_term_in ts"
  by (simp add: fun_eq_iff any_term_in_iff)

subsection \<open>Splitting at whitespace\<close>





subsection \<open>Hits\<close>

lemma length_hits: "well_formed r \<Longrightarrow> length (hits r) = length (documents r)"
  by (simp add: hits_def well_formed_def)

lemma documents_hits: "well_formed r \<Longrightarrow> documents r = map fst (hits r)"
  by (simp add: hits_def well_formed_def)

lemma metadatas_hits: "well_formed r \<Longrightarrow> metadatas r = map (fst \<circ> snd) (hits r)"
  by (simp add: hits_def well_formed_def zip_map_fst_snd map_fst_zip map_snd_zip
        flip: map_map)

lemma distances_hits: "well_formed r \<Longrightarrow> distances r = map (snd \<circ> snd) (hits r)"
  by (simp add: hits_def well_formed_def map_snd_zip flip: map_map)

lemma hits_empty: "hits empty_result = []"
  by (simp add: hits_def empty_result_def)

lemma hits_appended:
  "well_formed acc \<Longrightarrow>
   hits \<lparr>documents = documents acc @ [doc], metadatas = metadatas acc @ [m],
         distances = distances acc @ [d]\<rparr> = hits acc @ [(doc, m, d)]"
  by (simp add: hits_def well_formed_def)

lemma hits_enumerate:
  assumes "well_formed r"
  shows "map (hit_at r) (enumerate 0 (documents r)) = hits r"
proof (rule nth_equalityI)
  show "length (map (hit_at r) (enumerate 0 (documents r))) = length (hits r)"
    using assms by (simp add: length_hits)
next
  fix i assume "i < length (map (hit_at r) (enumerate 0 (documents r)))"
  then have i: "i < length (documents r)" by simp
  with assms show "map (hit_at r) (enumerate 0 (documents r)) ! i = hits r ! i"
    by (simp add: hit_at_def hits_def well_formed_def nth_enumerate_eq)
qed

lemma keep_first_set_cong:
  "set seen = set seen' \<Longrightarrow> keep_first seen hs = keep_first seen' hs"
proof (induction hs arbitrary: seen seen')
  case Nil
  show ?case by simp
next
  case (Cons h hs)
  from Cons.prems have "set (seen @ [fst h]) = set (seen' @ [fst h])" by simp
  from Cons.IH [OF this] Cons.IH [OF Cons.prems] Cons.prems show ?case by simp
qed

lemma keep_first_append:
  "keep_first seen (xs @ ys) = keep_first seen xs @ keep_first (seen @ map fst xs) ys"
proof (induction xs arbitrary: seen)
  case Nil
  show ?case by simp
next
  case (Cons h xs)
  show ?case
  proof (cases "fst h \<in> set seen")
    case True
    then have "set (seen @ map fst xs) = set (seen @ map fst (h # xs))" by auto
    from keep_first_set_cong [OF this] True Cons.IH [of seen] show ?thesis by simp
  next
    case False
    with Cons.IH [of "seen @ [fst h]"] show ?thesis by simp
  qed
qed

lemma fst_keep_first: "fst ` set (keep_first seen hs) = fst ` set hs - set seen"
  by (induction hs arbitrary: seen) auto

lemma distinct_keep_first: "distinct (map fst (keep_first seen hs))"
proof (induction hs arbitrary: seen)
  case Nil
  show ?case by simp
next
  case (Cons h hs)
  have "fst h \<notin> fst ` set (keep_first (seen @ [fst h]) hs)"
    by (simp add: fst_keep_first)
  with Cons.IH show ?case by simp
qed

lemma length_keep_first: "length (keep_first seen hs) \<le> length hs"
  by (induction hs arbitrary: seen) (auto intro: le_SucI)

lemma keep_first_distinct:
  "distinct (map fst hs) \<Longrightarrow> set seen \<inter> fst ` set hs = {} \<Longrightarrow> keep_first seen hs = hs"
proof (induction hs arbitrary: seen)
  case Nil
  show ?case by simp
next
  case (Cons h hs)
  from Cons.prems have "set (seen @ [fst h]) \<inter> fst ` set hs = {}" by auto
  moreover from Cons.prems have "distinct (map fst hs)" by simp
  ultimately have "keep_first (seen @ [fst h]) hs = hs" by (rule Cons.IH [rotated])
  with Cons.prems show ?case by auto
qed

lemma map_fst_keep_first: "map fst (keep_first [] hs) = dedup_first (map fst hs)"
proof -
  have "map fst (keep_first (dedup_first pre) hs) =
        filter (\<lambda>d. d \<notin> set pre) (dedup_first (map fst hs))" for pre
  proof (induction hs arbitrary: pre rule: rev_induct)
    case Nil
    show ?case by (simp add: dedup_first_Nil)
  next
    case (snoc h hs)
    have "keep_first (dedup_first pre) (hs @ [h]) =
        keep_first (dedup_first pre) hs @ keep_first (dedup_first pre @ map fst hs) [h]"
      by (rule keep_first_append)
    with snoc show ?case
      by (auto simp add: dedup_first_snoc set_dedup_first)
  qed
  from this [of "[]"] show ?thesis by (simp add: dedup_first_Nil)
qed

lemma append_hit_hits:
  assumes "i < length (metadatas r)" and "i < length (distances r)" and "well_formed acc"
  shows "\<exists>acc'. append_hit r i doc acc = Inr acc' \<and> well_formed acc' \<and>
           documents acc' = documents acc @ [doc] \<and>
           hits acc' = hits acc @ [hit_at r (i, doc)]"
  using assms
  by (simp add: append_hit_ok hits_appended hit_at_def) (simp add: well_formed_def)


lemma semantic_merge_loop_hits:
  assumes "\<forall>p\<in>set ids. fst p < length (metadatas r) \<and> fst p < length (distances r)"
    and "well_formed c"
  shows "\<exists>c'. semantic_merge_loop r ids c = Inr c' \<and> well_formed c' \<and>
       hits c' = hits c @ keep_first (documents c) (map (hit_at r) ids)"
  using assms
proof (induction ids arbitrary: c)
  case Nil
  then show ?case by simp
next
  case (Cons p rest)
  obtain i doc where p: "p = (i, doc)" by (cases p)
  from Cons.prems p have i: "i < length (metadatas r)" "i < length (distances r)" by simp_all
  from Cons.prems have rest: "\<forall>p\<in>set rest. fst p < length (metadatas r) \<and> fst p < length (distances r)"
    by simp
  have fh: "fst (hit_at r (i, doc)) = doc" by (simp add: hit_at_def)
  show ?case
  proof (cases "doc \<in> set (documents c)")
    case True
    with Cons.IH [OF rest Cons.prems(2)] show ?thesis by (simp add: p fh)
  next
    case False
    from append_hit_hits [OF i Cons.prems(2), of doc] obtain c1 where a1:
      "append_hit r i doc c = Inr c1" "well_formed c1"
      "documents c1 = documents c @ [doc]"
      "hits c1 = hits c @ [hit_at r (i, doc)]" by blast
    from Cons.IH [OF rest a1(2)] obtain c' where
      "semantic_merge_loop r rest c1 = Inr c'" "well_formed c'"
      "hits c' = hits c1 @ keep_first (documents c1) (map (hit_at r) rest)" by blast
    with False a1 show ?thesis by (simp add: p fh)
  qed
qed

lemma keyword_merge_loop_hits:
  assumes "\<forall>p\<in>set ids. fst p < length (metadatas r) \<and> fst p < length (distances r)"
    and "well_formed c"
    and "0 \<le> n"
  shows "\<exists>c'. keyword_merge_loop n r ids c = Inr c' \<and> well_formed c' \<and>
       take (nat n) (hits c') =
         take (nat n) (hits c @ keep_first (documents c) (map (hit_at r) ids))"
  using assms
proof (induction ids arbitrary: c)
  case Nil
  then show ?case by simp
next
  case (Cons p rest)
  obtain i doc where p: "p = (i, doc)" by (cases p)
  from Cons.prems p have i: "i < length (metadatas r)" "i < length (distances r)" by simp_all
  from Cons.prems have rest: "\<forall>p\<in>set rest. fst p < length (metadatas r) \<and> fst p < length (distances r)"
    by simp
  have fh: "fst (hit_at r (i, doc)) = doc" by (simp add: hit_at_def)
  show ?case
  proof (cases "doc \<in> set (documents c)")
    case True
    with Cons.IH [OF rest Cons.prems(2) Cons.prems(3)] show ?thesis by (simp add: p fh)
  next
    case new: False
    show ?thesis
    proof (cases "int (length (documents c)) < n")
      case True
      from append_hit_hits [OF i Cons.prems(2), of doc] obtain c1 where a1:
        "append_hit r i doc c = Inr c1" "well_formed c1"
        "documents c1 = documents c @ [doc]"
        "hits c1 = hits c @ [hit_at r (i, doc)]" by blast
      from Cons.IH [OF rest a1(2) Cons.prems(3)] obtain c' where
        "keyword_merge_loop n r rest c1 = Inr c'" "well_formed c'"
        "take (nat n) (hits c') =
           take (nat n) (hits c1 @ keep_first (documents c1) (map (hit_at r) rest))" by blast
      with new True a1 show ?thesis by (simp add: p fh)
    next
      case False
      with Cons.prems(3) have full: "nat n \<le> length (hits c)"
        using length_hits [OF Cons.prems(2)] by arith
      from Cons.IH [OF rest Cons.prems(2) Cons.prems(3)] obtain c' where
        "keyword_merge_loop n r rest c = Inr c'" "well_formed c'"
        "take (nat n) (hits c') =
           take (nat n) (hits c @ keep_first (documents c) (map (hit_at r) rest))" by blast
      with new False full show ?thesis by (simp add: p fh)
    qed
  qed
qed

lemma hits_py_prefix:
  "0 \<le> n \<Longrightarrow>
   hits \<lparr>documents = py_prefix n (documents c), metadatas = py_prefix n (metadatas c),
         distances = py_prefix n (distances c)\<rparr> = take (nat n) (hits c)"
  by (simp add: hits_def py_prefix_def take_zip)

lemma hybrid_hits:
  assumes wf: "well_formed (semantic_search collection query n)"
    and n: "0 \<le> n"
  shows "hits (hybrid_search collection query n) =
           take (nat n) (keep_first [] (hits (semantic_search collection query n) @
                                       hits (keyword_search collection query n)))"
proof -
  let ?sem = "semantic_search collection query n"
  let ?kw = "keyword_search collection query n"
  from semantic_merge_loop_hits [OF well_formed_indices [OF wf] well_formed_empty]
  obtain c1 where c1: "semantic_merge_loop ?sem (enumerate 0 (documents ?sem)) empty_result = Inr c1"
    "well_formed c1"
    "hits c1 = hits empty_result @
       keep_first (documents empty_result) (map (hit_at ?sem) (enumerate 0 (documents ?sem)))"
    by blast
  have "documents empty_result = []" by (simp add: empty_result_def)
  with c1(3) have h1: "hits c1 = keep_first [] (hits ?sem)"
    by (simp add: hits_empty hits_enumerate [OF wf])
  have wfk: "well_formed ?kw" by (rule well_formed_keyword_search)
  from keyword_merge_loop_hits [OF well_formed_indices [OF wfk] c1(2) n]
  obtain c2 where c2: "keyword_merge_loop n ?kw (enumerate 0 (documents ?kw)) c1 = Inr c2"
    "well_formed c2"
    "take (nat n) (hits c2) =
       take (nat n) (hits c1 @ keep_first (documents c1) (map (hit_at ?kw) (enumerate 0 (documents ?kw))))"
    by blast
  have "set (documents c1) = set ([] @ map fst (hits ?sem))"
    using documents_hits [OF c1(2)] fst_keep_first [of "[]" "hits ?sem"] by (simp add: h1)
  then have "keep_first (documents c1) (hits ?kw) = keep_first ([] @ map fst (hits ?sem)) (hits ?kw)"
    by (rule keep_first_set_cong)
  with c2(3) have h2: "take (nat n) (hits c2) =
       take (nat n) (keep_first [] (hits ?sem @ hits ?kw))"
    by (simp add: h1 hits_enumerate [OF wfk] keep_first_append)
  have h: "hybrid_search collection query n =
       \<lparr>documents = py_prefix n (documents c2), metadatas = py_prefix n (metadatas c2),
        distances = py_prefix n (distances c2)\<rparr>"
    by (simp add: hybrid_search_def Let_def c1(1) c2(1))
  show ?thesis unfolding h by (simp only: hits_py_prefix [OF n] h2)
qed








lemma hybrid_negative:
  assumes "n < 0" and "documents (semantic_search collection query n) = []"
  shows "hybrid_search collection query n = empty_result"
proof -
  from assms(1) have full: "n \<le> int (length (documents empty_result))" by simp
  show ?thesis
    by (simp add: hybrid_search_def Let_def assms(2) keyword_merge_loop_full [OF full])
       (simp add: empty_result_def py_prefix_Nil)
qed

lemma hybrid_hits_within_limit:
  assumes wf: "well_formed (semantic_search collection query n_results)"
    and top: "length (documents (semantic_search collection query n_results)) \<le> nat n_results"
  shows "hits (hybrid_search collection query n_results) =
           keep_first [] (hits (semantic_search collection query n_results)) @
           take (nat n_results -
                 length (keep_first [] (hits (semantic_search collection query n_results))))
             (keep_first (documents (semantic_search collection query n_results))
                (hits (keyword_search collection query n_results))) \<and>
         prefix (keep_first [] (hits (semantic_search collection query n_results)))
           (hits (hybrid_search collection query n_results)) \<and>
         (distinct (documents (semantic_search collection query n_results)) \<longrightarrow>
            prefix (hits (semantic_search collection query n_results))
              (hits (hybrid_search collection query n_results))) \<and>
         set (documents (semantic_search collection query n_results)) \<subseteq>
           set (documents (hybrid_search collection query n_results)) \<and>
         length (documents (hybrid_search collection query n_results)) \<le> nat n_results \<and>
         distinct (documents (hybrid_search collection query n_results)) \<and>
         well_formed (hybrid_search collection query n_results) \<and>
         documents (hybrid_search collection query n_results) =
           map fst (hits (hybrid_search collection query n_results)) \<and>
         metadatas (hybrid_search collection query n_results) =
           map (fst \<circ> snd) (hits (hybrid_search collection query n_results)) \<and>
         distances (hybrid_search collection query n_results) =
           map (snd \<circ> snd) (hits (hybrid_search collection query n_results)) \<and>
         search_similar_content collection query n_results ''hybrid'' =
           hybrid_search collection query n_results"
proof -
  let ?S = "semantic_search collection query n_results"
  let ?K = "keyword_search collection query n_results"
  let ?H = "hybrid_search collection query n_results"
  have docsS: "documents ?S = map fst (hits ?S)" using wf by (rule documents_hits)
  have core: "hits ?H = take (nat n_results) (keep_first [] (hits ?S @ hits ?K)) \<and> well_formed ?H"
  proof (cases "0 \<le> n_results")
    case True
    with wf hybrid_hits [OF wf True] hybrid_documents [OF wf True] show ?thesis by simp
  next
    case False
    with top have S: "documents ?S = []" by simp
    from False have "n_results < 0" by simp
    from hybrid_negative [OF this S] False show ?thesis
      by (simp add: hits_empty well_formed_empty)
  qed
  then have wfH: "well_formed ?H" by simp
  have app: "keep_first [] (hits ?S @ hits ?K) =
      keep_first [] (hits ?S) @ keep_first (documents ?S) (hits ?K)"
    by (simp add: keep_first_append docsS)
  have "length (keep_first [] (hits ?S)) \<le> length (hits ?S)" by (rule length_keep_first)
  with top have le: "length (keep_first [] (hits ?S)) \<le> nat n_results"
    by (simp add: length_hits [OF wf])
  from core have H: "hits ?H = keep_first [] (hits ?S) @
      take (nat n_results - length (keep_first [] (hits ?S))) (keep_first (documents ?S) (hits ?K))"
    using le by (simp add: app)
  from H have pre: "prefix (keep_first [] (hits ?S)) (hits ?H)" by simp
  have dis: "distinct (documents ?S) \<longrightarrow> prefix (hits ?S) (hits ?H)"
  proof
    assume "distinct (documents ?S)"
    then have "keep_first [] (hits ?S) = hits ?S"
      by (intro keep_first_distinct) (simp_all add: docsS)
    with pre show "prefix (hits ?S) (hits ?H)" by simp
  qed
  have dH: "documents ?H = map fst (hits ?H)" using wfH by (rule documents_hits)
  have "set (documents ?S) = fst ` set (keep_first [] (hits ?S))"
    by (simp add: fst_keep_first docsS)
  also have "\<dots> \<subseteq> fst ` set (hits ?H)"
    using set_mono_prefix [OF pre] by blast
  finally have sub: "set (documents ?S) \<subseteq> set (documents ?H)" by (simp add: dH)
  from core have len: "length (documents ?H) \<le> nat n_results"
    by (simp add: dH)
  have "distinct (map fst (keep_first [] (hits ?S @ hits ?K)))" by (rule distinct_keep_first)
  then have "distinct (take (nat n_results) (map fst (keep_first [] (hits ?S @ hits ?K))))"
    by (rule distinct_take)
  with core have dist: "distinct (documents ?H)" by (simp add: dH take_map)
  have s: "search_similar_content collection query n_results ''hybrid'' = ?H"
    by (simp add: search_similar_content_def)
  from H pre dis sub len dist wfH dH metadatas_hits [OF wfH] distances_hits [OF wfH] s
  show ?thesis by blast
qed

text \<open>
  C4 (amended). Let the semantic result be well formed. For \<open>n_results\<close> not negative
  the hits of the hybrid result (document, metadata and distance) are the semantic hits
  in rank order, without those whose document text is the text of an earlier semantic
  hit, followed by the keyword hits whose text is new, up to \<open>n_results\<close> hits in all.
  When the semantic result holds at most \<open>n_results\<close> hits (the backend's top
  \<open>n_results\<close>; none when \<open>n_results\<close> is negative), no semantic hit is cut off:
  every semantic document text is in the hybrid result, the semantic hits that are first
  of their text are a prefix of it and keep their order, and when the semantic texts are
  distinct every semantic hit is in the hybrid result before any keyword hit.
\<close>

theorem hybrid_semantic_first:
  assumes wf: "well_formed (semantic_search collection query n_results)"
  shows "(0 \<le> n_results \<longrightarrow>
           hits (hybrid_search collection query n_results) =
             take (nat n_results)
               (keep_first [] (hits (semantic_search collection query n_results)) @
                keep_first (documents (semantic_search collection query n_results))
                  (hits (keyword_search collection query n_results)))) \<and>
         (length (documents (semantic_search collection query n_results)) \<le> nat n_results \<longrightarrow>
           hits (hybrid_search collection query n_results) =
             keep_first [] (hits (semantic_search collection query n_results)) @
             take (nat n_results -
                   length (keep_first [] (hits (semantic_search collection query n_results))))
               (keep_first (documents (semantic_search collection query n_results))
                  (hits (keyword_search collection query n_results))) \<and>
           prefix (keep_first [] (hits (semantic_search collection query n_results)))
             (hits (hybrid_search collection query n_results)) \<and>
           (distinct (documents (semantic_search collection query n_results)) \<longrightarrow>
              prefix (hits (semantic_search collection query n_results))
                (hits (hybrid_search collection query n_results))) \<and>
           set (documents (semantic_search collection query n_results)) \<subseteq>
             set (documents (hybrid_search collection query n_results)) \<and>
           length (documents (hybrid_search collection query n_results)) \<le> nat n_results \<and>
           distinct (documents (hybrid_search collection query n_results)) \<and>
           well_formed (hybrid_search collection query n_results) \<and>
           documents (hybrid_search collection query n_results) =
             map fst (hits (hybrid_search collection query n_results)) \<and>
           metadatas (hybrid_search collection query n_results) =
             map (fst \<circ> snd) (hits (hybrid_search collection query n_results)) \<and>
           distances (hybrid_search collection query n_results) =
             map (snd \<circ> snd) (hits (hybrid_search collection query n_results))) \<and>
         search_similar_content collection query n_results ''hybrid'' =
           hybrid_search collection query n_results"
proof -
  have a: "hits (hybrid_search collection query n_results) =
             take (nat n_results)
               (keep_first [] (hits (semantic_search collection query n_results)) @
                keep_first (documents (semantic_search collection query n_results))
                  (hits (keyword_search collection query n_results)))"
    if "0 \<le> n_results"
    using hybrid_hits [OF wf that]
    by (simp add: keep_first_append documents_hits [OF wf])
  have s: "search_similar_content collection query n_results ''hybrid'' =
           hybrid_search collection query n_results"
    by (simp add: search_similar_content_def)
  have b: "length (documents (semantic_search collection query n_results)) \<le> nat n_results \<Longrightarrow>
           hits (hybrid_search collection query n_results) =
             keep_first [] (hits (semantic_search collection query n_results)) @
             take (nat n_results -
                   length (keep_first [] (hits (semantic_search collection query n_results))))
               (keep_first (documents (semantic_search collection query n_results))
                  (hits (keyword_search collection query n_results))) \<and>
           prefix (keep_first [] (hits (semantic_search collection query n_results)))
             (hits (hybrid_search collection query n_results)) \<and>
           (distinct (documents (semantic_search collection query n_results)) \<longrightarrow>
              prefix (hits (semantic_search collection query n_results))
                (hits (hybrid_search collection query n_results))) \<and>
           set (documents (semantic_search collection query n_results)) \<subseteq>
             set (documents (hybrid_search collection query n_results)) \<and>
           length (documents (hybrid_search collection query n_results)) \<le> nat n_results \<and>
           distinct (documents (hybrid_search collection query n_results)) \<and>
           well_formed (hybrid_search collection query n_results) \<and>
           documents (hybrid_search collection query n_results) =
             map fst (hits (hybrid_search collection query n_results)) \<and>
           metadatas (hybrid_search collection query n_results) =
             map (fst \<circ> snd) (hits (hybrid_search collection query n_results)) \<and>
           distances (hybrid_search collection query n_results) =
             map (snd \<circ> snd) (hits (hybrid_search collection query n_results))"
    using hybrid_hits_within_limit [OF wf] by blast
  from a b s show ?thesis by blast
qed

lemma repeat_pool_semantic_hits:
  "hits (semantic_search (ranked_backend repeat_pool) ''startup'' 2) =
     [(''intro'', chunk_meta 0, 1), (''intro'', chunk_meta 1, 2)]"
  by code_simp

lemma repeat_pool_keyword_hits:
  "hits (keyword_search (ranked_backend repeat_pool) ''startup'' 2) =
     [(''startup two'', chunk_meta 2, 3)]"
  by code_simp

lemma repeat_pool_semantic_wf:
  "well_formed (semantic_search (ranked_backend repeat_pool) ''startup'' 2) \<and>
   documents (semantic_search (ranked_backend repeat_pool) ''startup'' 2) = [''intro'', ''intro'']"
  by (simp add: semantic_search_def ranked_backend_def top_hits_def repeat_pool_def well_formed_def)

lemma tagged_pool_semantic:
  "semantic_search (ranked_backend tagged_pool) ''startup'' 2 =
     \<lparr>documents = [''We talk about funding'', ''My first Startup failed''],
      metadatas = [chunk_meta 0, chunk_meta 1], distances = [1, 2]\<rparr>"
  by (simp add: semantic_search_def ranked_backend_def top_hits_def tagged_pool_def)

theorem hybrid_semantic_first_witness:
  "well_formed (semantic_search (ranked_backend repeat_pool) ''startup'' 2) \<and>
   length (documents (semantic_search (ranked_backend repeat_pool) ''startup'' 2)) \<le> nat 2 \<and>
   hits (hybrid_search (ranked_backend repeat_pool) ''startup'' 2) =
     [(''intro'', chunk_meta 0, 1), (''startup two'', chunk_meta 2, 3)] \<and>
   well_formed (semantic_search (ranked_backend tagged_pool) ''startup'' 2) \<and>
   length (documents (semantic_search (ranked_backend tagged_pool) ''startup'' 2)) \<le> nat 2 \<and>
   distinct (documents (semantic_search (ranked_backend tagged_pool) ''startup'' 2)) \<and>
   prefix [(''We talk about funding'', chunk_meta 0, 1), (''My first Startup failed'', chunk_meta 1, 2)]
     (hits (hybrid_search (ranked_backend tagged_pool) ''startup'' 2))"
proof -
  have w1: "well_formed (semantic_search (ranked_backend repeat_pool) ''startup'' 2)"
    using repeat_pool_semantic_wf by simp
  have l1: "length (documents (semantic_search (ranked_backend repeat_pool) ''startup'' 2)) \<le> nat 2"
    using repeat_pool_semantic_wf by simp
  have r1: "hits (hybrid_search (ranked_backend repeat_pool) ''startup'' 2) =
     [(''intro'', chunk_meta 0, 1), (''startup two'', chunk_meta 2, 3)]"
    using hybrid_semantic_first [OF w1] l1 repeat_pool_semantic_wf
    by (simp add: repeat_pool_semantic_hits repeat_pool_keyword_hits)
  have w2: "well_formed (semantic_search (ranked_backend tagged_pool) ''startup'' 2)"
    unfolding tagged_pool_semantic by (simp add: well_formed_def)
  have l2: "length (documents (semantic_search (ranked_backend tagged_pool) ''startup'' 2)) \<le> nat 2"
    unfolding tagged_pool_semantic by simp
  have d2: "distinct (documents (semantic_search (ranked_backend tagged_pool) ''startup'' 2))"
    unfolding tagged_pool_semantic by simp
  have "prefix (hits (semantic_search (ranked_backend tagged_pool) ''startup'' 2))
      (hits (hybrid_search (ranked_backend tagged_pool) ''startup'' 2))"
    using hybrid_semantic_first [OF w2] l2 d2 by blast
  then have r2: "prefix [(''We talk about funding'', chunk_meta 0, 1),
        (''My first Startup failed'', chunk_meta 1, 2)]
      (hits (hybrid_search (ranked_backend tagged_pool) ''startup'' 2))"
    by (simp add: tagged_pool_semantic hits_def)
  from w1 l1 r1 w2 l2 d2 r2 show ?thesis by blast
qed

text \<open>
  C4 as stated fails where two semantic hits have the same text: of two chunks with the
  text \<open>intro\<close> ranked first and second, the second is not in the hybrid result for
  \<open>n_results = 2\<close>, and a keyword hit has its place.
\<close>

lemma repeat_pool_hybrid_hits:
  "hits (hybrid_search (ranked_backend repeat_pool) ''startup'' 2) =
     [(''intro'', chunk_meta 0, 1), (''startup two'', chunk_meta 2, 3)]"
  by code_simp

theorem repeated_text_hit_displaced:
  "hits (semantic_search (ranked_backend repeat_pool) ''startup'' 2) =
     [(''intro'', chunk_meta 0, 1), (''intro'', chunk_meta 1, 2)] \<and>
   hits (search_similar_content (ranked_backend repeat_pool) ''startup'' 2 ''hybrid'') =
     [(''intro'', chunk_meta 0, 1), (''startup two'', chunk_meta 2, 3)] \<and>
   (''intro'', chunk_meta 1, 2)
     \<in> set (hits (semantic_search (ranked_backend repeat_pool) ''startup'' 2)) \<and>
   (''intro'', chunk_meta 1, 2)
     \<notin> set (hits (search_similar_content (ranked_backend repeat_pool) ''startup'' 2 ''hybrid''))"
proof -
  have h: "search_similar_content (ranked_backend repeat_pool) ''startup'' 2 ''hybrid'' =
      hybrid_search (ranked_backend repeat_pool) ''startup'' 2"
    by (simp add: search_similar_content_def)
  have "chunk_meta 1 \<noteq> chunk_meta 0" "chunk_meta 1 \<noteq> chunk_meta 2"
    by (simp_all add: chunk_meta_def)
  then show ?thesis
    by (simp add: h repeat_pool_semantic_hits repeat_pool_hybrid_hits)
qed

text \<open>
  C10. A query without a non-whitespace character has no terms, so keyword search
  returns the empty result whatever the backend holds and whatever \<open>n_results\<close> is.
\<close>

theorem keyword_search_blank_query:
  assumes "\<forall>c\<in>set query. isspace c"
  shows "keyword_search collection query n_results = empty_result \<and>
         search_similar_content collection query n_results ''keyword'' = empty_result"
  using assms
  by (simp add: keyword_search_def search_similar_content_def split_lower_spaces
        keyword_loop_no_terms split: sum.splits)

theorem keyword_search_blank_query_witness:
  "isspace (CHR '' '') \<and>
   keyword_search (ranked_backend startup_pool) ''  '' 5 = empty_result \<and>
   search_similar_content (ranked_backend startup_pool) ''  '' 5 ''keyword'' = empty_result"
proof -
  have h: "\<forall>c\<in>set ''  ''. isspace c" by (simp add: isspace_def)
  have "isspace (CHR '' '')" by (simp add: isspace_def)
  with keyword_search_blank_query [OF h, of "ranked_backend startup_pool" 5]
  show ?thesis by blast
qed

lemma semantic_search_void:
  "void_answer (collection query n) \<Longrightarrow> semantic_search collection query n = empty_result"
  by (auto simp add: void_answer_def semantic_search_def split: sum.splits)

lemma keyword_search_void:
  "void_answer (collection query (n * 2)) \<Longrightarrow> keyword_search collection query n = empty_result"
  by (auto simp add: void_answer_def keyword_search_def empty_result_def split: sum.splits)

lemma hybrid_search_void:
  assumes "void_answer (collection query n)" and "void_answer (collection query (n * 2))"
  shows "hybrid_search collection query n = empty_result"
proof -
  have s: "semantic_search collection query n = empty_result"
    using assms(1) by (rule semantic_search_void)
  have k: "keyword_search collection query n = empty_result"
    using assms(2) by (rule keyword_search_void)
  have d: "documents empty_result = []" by (simp add: empty_result_def)
  show ?thesis
    by (simp add: hybrid_search_def s k d py_prefix_Nil Let_def)
       (simp add: empty_result_def py_prefix_Nil)
qed

text \<open>
  C6 (amended). No strategy propagates an exception of the backend. A strategy other than
  keyword and hybrid returns the empty result when its query of the backend raises (or
  finds nothing), keyword search when its query for \<open>2 * n_results\<close> candidates does,
  and every strategy when both queries do, which is the case of an empty index. Hybrid
  search whose keyword query alone raises still returns the deduplicated semantic hits.
\<close>

theorem backend_failure_degrades:
  "(search_strategy \<noteq> ''keyword'' \<and> search_strategy \<noteq> ''hybrid'' \<and>
      void_answer (collection query n_results) \<longrightarrow>
        search_similar_content collection query n_results search_strategy = empty_result) \<and>
   (void_answer (collection query (n_results * 2)) \<longrightarrow>
        search_similar_content collection query n_results ''keyword'' = empty_result) \<and>
   (void_answer (collection query n_results) \<and> void_answer (collection query (n_results * 2)) \<longrightarrow>
        search_similar_content collection query n_results search_strategy = empty_result) \<and>
   (\<forall>sem e. collection query n_results = Inr sem \<and> well_formed sem \<and> 0 \<le> n_results \<and>
        collection query (n_results * 2) = Inl e \<longrightarrow>
        documents (search_similar_content collection query n_results ''hybrid'') =
          take (nat n_results) (dedup_first (documents sem)))"
proof -
  have a: "search_similar_content collection query n_results search_strategy = empty_result"
    if "search_strategy \<noteq> ''keyword''" "search_strategy \<noteq> ''hybrid''"
       "void_answer (collection query n_results)"
    using that by (simp add: search_similar_content_def semantic_search_void)
  have b: "search_similar_content collection query n_results ''keyword'' = empty_result"
    if "void_answer (collection query (n_results * 2))"
    using that by (simp add: search_similar_content_def keyword_search_void)
  have c: "search_similar_content collection query n_results search_strategy = empty_result"
    if "void_answer (collection query n_results)" "void_answer (collection query (n_results * 2))"
    using that
    by (simp add: search_similar_content_def semantic_search_void keyword_search_void
          hybrid_search_void)
  have d: "documents (search_similar_content collection query n_results ''hybrid'') =
          take (nat n_results) (dedup_first (documents sem))"
    if h: "collection query n_results = Inr sem" "well_formed sem" "0 \<le> n_results"
       "collection query (n_results * 2) = Inl e" for sem e
  proof -
    have s: "semantic_search collection query n_results = sem"
      by (simp add: semantic_search_def h(1))
    have k: "keyword_search collection query n_results = empty_result"
      by (simp add: keyword_search_def h(4))
    from h(2) s have "well_formed (semantic_search collection query n_results)" by simp
    from hybrid_documents [OF this h(3)] show ?thesis
      by (simp add: search_similar_content_def s k empty_result_def)
  qed
  from a b c d show ?thesis by blast
qed

lemma strict_two_docs_hybrid:
  "search_similar_content (strict_backend two_docs) ''gamma'' 2 ''hybrid'' = two_docs"
  by code_simp

theorem backend_failure_degrades_witness:
  "void_answer (down_backend ''gamma'' 2) \<and> void_answer (down_backend ''gamma'' (2 * 2)) \<and>
   search_similar_content down_backend ''gamma'' 2 ''semantic'' = empty_result \<and>
   search_similar_content down_backend ''gamma'' 2 ''keyword'' = empty_result \<and>
   search_similar_content down_backend ''gamma'' 2 ''hybrid'' = empty_result \<and>
   strict_backend two_docs ''gamma'' 2 = Inr two_docs \<and> well_formed two_docs \<and>
   strict_backend two_docs ''gamma'' (2 * 2) = Inl (BackendError ''not enough elements'') \<and>
   documents (search_similar_content (strict_backend two_docs) ''gamma'' 2 ''hybrid'') =
     [''alpha beta'', ''gamma'']"
proof -
  have v1: "void_answer (down_backend ''gamma'' 2)"
    and v2: "void_answer (down_backend ''gamma'' (2 * 2))"
    by (simp_all add: void_answer_def down_backend_def)
  note D = backend_failure_degrades [of _ down_backend "''gamma''" 2]
  have r1: "search_similar_content down_backend ''gamma'' 2 ''semantic'' = empty_result"
    using D [of "''semantic''"] v1 by simp
  have r2: "search_similar_content down_backend ''gamma'' 2 ''keyword'' = empty_result"
    using D [of "''keyword''"] v2 by simp
  have r3: "search_similar_content down_backend ''gamma'' 2 ''hybrid'' = empty_result"
    using D [of "''hybrid''"] v1 v2 by simp
  have s1: "strict_backend two_docs ''gamma'' 2 = Inr two_docs"
    by (simp add: strict_backend_def top_hits_def two_docs_def)
  have s2: "strict_backend two_docs ''gamma'' (2 * 2) = Inl (BackendError ''not enough elements'')"
    by (simp add: strict_backend_def two_docs_def)
  have w: "well_formed two_docs" by (simp add: well_formed_def two_docs_def)
  have "documents (search_similar_content (strict_backend two_docs) ''gamma'' 2 ''hybrid'') =
      take (nat 2) (dedup_first (documents two_docs))"
    using backend_failure_degrades [of "''hybrid''" "strict_backend two_docs" "''gamma''" 2] s1 s2 w
    by simp
  then have r4: "documents (search_similar_content (strict_backend two_docs) ''gamma'' 2 ''hybrid'') =
     [''alpha beta'', ''gamma'']"
    by (simp add: two_docs_def dedup_first_def)
  from v1 v2 r1 r2 r3 s1 s2 w r4 show ?thesis by blast
qed

text \<open>
  C6 as stated fails for hybrid search when only one of its two queries raises: a backend
  holding two documents that raises when asked for more results than it holds answers the
  semantic query for 2 results and raises on the keyword query for 4; hybrid search
  returns the two semantic hits, not the empty result.
\<close>

theorem hybrid_survives_keyword_failure:
  "strict_backend two_docs ''gamma'' (2 * 2) = Inl (BackendError ''not enough elements'') \<and>
   search_similar_content (strict_backend two_docs) ''gamma'' 2 ''hybrid'' = two_docs \<and>
   two_docs \<noteq> empty_result"
proof -
  have "strict_backend two_docs ''gamma'' (2 * 2) = Inl (BackendError ''not enough elements'')"
    by (simp add: strict_backend_def two_docs_def)
  moreover have "two_docs \<noteq> empty_result"
    by (simp add: two_docs_def empty_result_def)
  ultimately show ?thesis using strict_two_docs_hybrid by simp
qed
section \<open>Answer Synthesizer: properties\<close>

text \<open>
  C9. \<open>query_podcasts\<close> returns a result for every input. When the model id in effect
  (the argument, or the default when the argument is \<open>None\<close>) is neither \<open>gemini\<close> nor
  \<open>openai\<close>, the response is the text \<open>Error: Unknown model '<id>'. Available models:
  gemini, openai\<close> naming the id, the sources are the result of
  \<open>search_similar_content\<close>, and the result count is the number of retrieved documents.
\<close>

theorem query_podcasts_unknown_model:
  assumes "(case model of None \<Rightarrow> default_model engine | Some m \<Rightarrow> m) = model_id"
    and "model_id \<noteq> ''gemini''" and "model_id \<noteq> ''openai''"
  shows "response (query_podcasts ops engine gemini openai collection query n_results
                     search_strategy model) =
           ''Error: Unknown model '' @ [CHR 0x27] @ model_id @ [CHR 0x27] @
           ''. Available models: gemini, openai'' \<and>
         sources (query_podcasts ops engine gemini openai collection query n_results
                    search_strategy model) =
           search_similar_content collection query n_results search_strategy \<and>
         results_count (info (query_podcasts ops engine gemini openai collection query n_results
                    search_strategy model)) =
           length (documents (search_similar_content collection query n_results
                    search_strategy)) \<and>
         info_model (info (query_podcasts ops engine gemini openai collection query n_results
                    search_strategy model)) = model_id \<and>
         info_strategy (info (query_podcasts ops engine gemini openai collection query n_results
                    search_strategy model)) = search_strategy"
  using assms by (simp add: query_podcasts_def Let_def quote_def)

lemma ranked_two_docs_semantic_search:
  "search_similar_content (ranked_backend two_docs) ''gamma'' 2 ''semantic'' = two_docs"
  by (simp add: search_similar_content_def semantic_search_def ranked_backend_def top_hits_def
        two_docs_def)

theorem query_podcasts_unknown_model_witness:
  "(case Some ''llama'' of None \<Rightarrow> default_model example_engine | Some m \<Rightarrow> m) = ''llama'' \<and>
   ''llama'' \<noteq> ''gemini'' \<and> ''llama'' \<noteq> ''openai'' \<and>
   response (query_podcasts exact_ops example_engine (\<lambda>p. Inr ''ok'') (\<lambda>s p. Inr ''ok'')
       (ranked_backend two_docs) ''gamma'' 2 ''semantic'' (Some ''llama'')) =
     ''Error: Unknown model '' @ [CHR 0x27] @ ''llama'' @ [CHR 0x27] @
     ''. Available models: gemini, openai'' \<and>
   sources (query_podcasts exact_ops example_engine (\<lambda>p. Inr ''ok'') (\<lambda>s p. Inr ''ok'')
       (ranked_backend two_docs) ''gamma'' 2 ''semantic'' (Some ''llama'')) = two_docs \<and>
   results_count (info (query_podcasts exact_ops example_engine (\<lambda>p. Inr ''ok'') (\<lambda>s p. Inr ''ok'')
       (ranked_backend two_docs) ''gamma'' 2 ''semantic'' (Some ''llama''))) = 2"
proof -
  have a: "(case Some ''llama'' of None \<Rightarrow> default_model example_engine | Some m \<Rightarrow> m) = ''llama''"
    by simp
  have b: "''llama'' \<noteq> ''gemini''" and c: "''llama'' \<noteq> ''openai''" by simp_all
  have l: "length (documents two_docs) = 2" by (simp add: two_docs_def)
  from query_podcasts_unknown_model [OF a b c, of exact_ops "\<lambda>p. Inr ''ok''" "\<lambda>s p. Inr ''ok''"
      "ranked_backend two_docs" "''gamma''" 2 "''semantic''"] a b c l
  show ?thesis
    by (simp only: ranked_two_docs_semantic_search) simp
qed

end
